theory Spec2Isabelle
  imports Complex_Main
begin

section \<open>JavaScript values\<close>

text \<open>
  A JavaScript string is a sequence of UTF-16 code units; a code unit is modelled
  as a natural number. String literals of the program itself (messages, subjects)
  are plain ASCII and kept as HOL strings.
\<close>

type_synonym jsstring = "nat list"

definition ascii :: "string \<Rightarrow> jsstring" where
  "ascii s = map of_char s"

text \<open>
  A JavaScript number is an IEEE 754 double. \<open>Fin q\<close> is the finite double with the
  mathematical value \<open>q\<close> (the two zeros are not distinguished: they compare equal,
  are both falsy and print alike).
\<close>

datatype jsnum = NaN | Fin rat | PosInf | NegInf

text \<open>
  The values a request body can carry after \<open>express.json()\<close>, and \<open>Undefined\<close>
  for a property that is absent from the body.
\<close>

datatype jsvalue =
    Undefined
  | Null
  | Bool bool
  | Num jsnum
  | Str jsstring
  | Arr "jsvalue list"
  | Obj "(jsstring \<times> jsvalue) list"

text \<open>ToBoolean: what \<open>!v\<close> and \<open>v || w\<close> test.\<close>

fun truthy :: "jsvalue \<Rightarrow> bool" where
  "truthy Undefined = False"
| "truthy Null = False"
| "truthy (Bool b) = b"
| "truthy (Num n) = (n \<noteq> NaN \<and> n \<noteq> Fin 0)"
| "truthy (Str s) = (s \<noteq> [])"
| "truthy (Arr vs) = True"
| "truthy (Obj kvs) = True"

text \<open>\<open>a || b\<close>\<close>

definition js_or :: "jsvalue \<Rightarrow> jsvalue \<Rightarrow> jsvalue" where
  "js_or a b = (if truthy a then a else b)"

section \<open>Integers in doubles\<close>

text \<open>
  A double carries 53 significant bits. \<open>round_nat m\<close> is the value of the double
  nearest to the natural number \<open>m\<close>, ties going to the even significand, before the
  overflow to \<open>Infinity\<close> is looked at.
\<close>

fun bit_length :: "nat \<Rightarrow> nat" where
  "bit_length n = (if n = 0 then 0 else Suc (bit_length (n div 2)))"

declare bit_length.simps [simp del]

definition round_nat :: "nat \<Rightarrow> nat" where
  "round_nat m =
     (let p = bit_length m in
      if p \<le> 53 then m
      else
        let e = p - 53;
            q = m div 2 ^ e;
            r = m mod 2 ^ e;
            h = 2 ^ (e - 1);
            q' = (if h < r \<or> (r = h \<and> odd q) then q + 1 else q)
        in q' * 2 ^ e)"

definition to_number :: "nat \<Rightarrow> jsnum" where
  "to_number m = (let v = round_nat m in if 2 ^ 1024 \<le> v then PosInf else Fin (of_nat v))"

definition negate :: "jsnum \<Rightarrow> jsnum" where
  "negate n = (case n of NaN \<Rightarrow> NaN | Fin q \<Rightarrow> Fin (- q) | PosInf \<Rightarrow> NegInf | NegInf \<Rightarrow> PosInf)"

text \<open>
  \<open>nextId++\<close>: the counter only ever holds the positive integers it reaches from 1,
  so it is kept as a natural number, and the addition \<open>nextId + 1\<close> rounds as a
  double does.
\<close>

definition js_incr :: "nat \<Rightarrow> nat" where
  "js_incr n = round_nat (n + 1)"

text \<open>
  \<open>Number.MAX_SAFE_INTEGER + 1\<close>: up to here every natural number is a double of
  its own, and here \<open>+ 1\<close> stops changing the value.
\<close>

definition exact_limit :: nat where
  "exact_limit = 2 ^ 53"

section \<open>parseInt\<close>

text \<open>
  \<open>parseInt(string)\<close> with no radix, as ECMAScript defines it: leading white space
  is dropped, one sign is read, a \<open>0x\<close>/\<open>0X\<close> prefix selects radix 16, and the longest
  prefix of digits of the radix is the number; anything after it is ignored. No digit
  at all gives \<open>NaN\<close>.
\<close>

definition is_whitespace :: "nat \<Rightarrow> bool" where
  "is_whitespace c \<longleftrightarrow>
     c \<in> set [0x9, 0xA, 0xB, 0xC, 0xD, 0x20, 0xA0, 0x1680, 0x2028, 0x2029, 0x202F,
              0x205F, 0x3000, 0xFEFF] \<or> (0x2000 \<le> c \<and> c \<le> 0x200A)"

definition digit_value :: "nat \<Rightarrow> nat option" where
  "digit_value c =
     (if 48 \<le> c \<and> c \<le> 57 then Some (c - 48)
      else if 97 \<le> c \<and> c \<le> 122 then Some (c - 87)
      else if 65 \<le> c \<and> c \<le> 90 then Some (c - 55)
      else None)"

definition is_digit :: "nat \<Rightarrow> nat \<Rightarrow> bool" where
  "is_digit R c = (case digit_value c of None \<Rightarrow> False | Some d \<Rightarrow> d < R)"

definition math_int :: "nat \<Rightarrow> jsstring \<Rightarrow> nat" where
  "math_int R Z = foldl (\<lambda>a c. a * R + (case digit_value c of None \<Rightarrow> 0 | Some d \<Rightarrow> d)) 0 Z"

definition strip_sign :: "jsstring \<Rightarrow> bool \<times> jsstring" where
  "strip_sign S =
     (case S of
        [] \<Rightarrow> (False, S)
      | c # rest \<Rightarrow> if c = 45 then (True, rest) else if c = 43 then (False, rest) else (False, S))"

definition strip_prefix :: "jsstring \<Rightarrow> nat \<times> jsstring" where
  "strip_prefix S =
     (case S of
        c # x # rest \<Rightarrow> if c = 48 \<and> (x = 120 \<or> x = 88) then (16, rest) else (10, S)
      | _ \<Rightarrow> (10, S))"

definition parseInt :: "jsstring \<Rightarrow> jsnum" where
  "parseInt string =
     (let S = dropWhile is_whitespace string;
          (neg, S1) = strip_sign S;
          (R, S2) = strip_prefix S1;
          Z = takeWhile (is_digit R) S2
      in if Z = [] then NaN
         else if neg then negate (to_number (math_int R Z))
         else to_number (math_int R Z))"

section \<open>The record store and the adapter handle\<close>

record user =
  user_id :: nat
  name :: jsvalue
  email :: jsvalue
  createdAt :: jsstring
  updatedAt :: "jsstring option"

datatype nats_client = NatsClient

text \<open>
  The module's variables. The array is a list of any length: the limits of the heap
  and of the length of an array are not modelled.
\<close>

record server =
  users :: "user list"
  nextId :: nat
  nats :: "nats_client option"

definition init :: server where
  "init = \<lparr>users = [], nextId = 1, nats = None\<rparr>"

text \<open>\<open>u.id === userId\<close>: \<open>NaN\<close> equals nothing.\<close>

definition id_is :: "jsnum \<Rightarrow> user \<Rightarrow> bool" where
  "id_is userId u \<longleftrightarrow> userId = Fin (of_nat (user_id u))"

text \<open>\<open>Array.prototype.findIndex\<close>; \<open>None\<close> stands for the result \<open>-1\<close>.\<close>

fun findIndex :: "('a \<Rightarrow> bool) \<Rightarrow> 'a list \<Rightarrow> nat option" where
  "findIndex P [] = None"
| "findIndex P (x # xs) =
     (if P x then Some 0 else (case findIndex P xs of None \<Rightarrow> None | Some i \<Rightarrow> Some (Suc i)))"

text \<open>\<open>xs.splice(i, 1)\<close>\<close>

definition splice1 :: "nat \<Rightarrow> 'a list \<Rightarrow> 'a list" where
  "splice1 i xs = take i xs @ drop (Suc i) xs"

section \<open>Effects of a handler\<close>

text \<open>
  What the environment decides: how an awaited promise settles (it is taken to
  settle). The rejection value is an \<open>Error\<close> object with its message.
\<close>

datatype js_error = Error jsstring

datatype 'a settled = Resolved 'a | Rejected js_error

datatype logarg = LNum nat | LStr jsstring | LErr js_error

datatype body =
    NoBody
  | ErrorBody string
  | UserBody user
  | UsersBody "user list" nat
  | ReadyBody string bool

text \<open>
  A handler's observable actions, in the order in which it performs them.
  \<open>Awaited\<close> marks the point where an \<open>await\<close> returns: the handler was suspended
  there until the promise settled. \<open>ServerClose\<close> is \<open>http.Server.close()\<close>, the call
  that stops a listener from accepting connections.
\<close>

datatype effect =
    ConsoleLog string "logarg list"
  | ConsoleError string "logarg list"
  | NatsConnect
  | NatsPublish string user
  | NatsClose
  | Awaited "js_error option"
  | Respond nat body
  | ServerClose
  | ProcessExit int
  | UnhandledRejection js_error

record reqbody =
  b_name :: jsvalue
  b_email :: jsvalue

section \<open>The handlers\<close>

text \<open>\<open>initNATS\<close>, given how \<open>Client.connect\<close> settles.\<close>

definition initNATS :: "server \<Rightarrow> nats_client settled \<Rightarrow> server \<times> effect list \<times> unit settled" where
  "initNATS st conn =
     (case conn of
        Resolved c \<Rightarrow>
          (st\<lparr>nats := Some c\<rparr>,
           [NatsConnect, Awaited None, ConsoleLog ''Connected to NATS'' []],
           Resolved ())
      | Rejected (Error msg) \<Rightarrow>
          (st,
           [NatsConnect, Awaited (Some (Error msg)),
            ConsoleLog ''NATS connection failed:'' [LStr msg],
            ConsoleLog ''Continuing without NATS integration'' []],
           Resolved ()))"

definition get_ready :: "server \<Rightarrow> server \<times> effect list" where
  "get_ready st = (st, [Respond 200 (ReadyBody ''ready'' (nats st \<noteq> None))])"

definition get_users :: "server \<Rightarrow> server \<times> effect list" where
  "get_users st = (st, [Respond 200 (UsersBody (users st) (length (users st)))])"

definition get_user :: "server \<Rightarrow> jsstring \<Rightarrow> server \<times> effect list" where
  "get_user st seg =
     (let userId = parseInt seg in
      case find (id_is userId) (users st) of
        None \<Rightarrow> (st, [Respond 404 (ErrorBody ''User not found'')])
      | Some u \<Rightarrow> (st, [Respond 200 (UserBody u)]))"

definition publish_created :: "server \<Rightarrow> user \<Rightarrow> unit settled \<Rightarrow> effect list" where
  "publish_created st u pub =
     (case nats st of
        None \<Rightarrow> []
      | Some c \<Rightarrow>
          (case pub of
             Resolved _ \<Rightarrow>
               [NatsPublish ''user.created'' u, Awaited None,
                ConsoleLog ''Published user.created event:'' [LNum (user_id u)]]
           | Rejected e \<Rightarrow>
               [NatsPublish ''user.created'' u, Awaited (Some e),
                ConsoleError ''Failed to publish event:'' [LErr e]]))"

text \<open>The object literal of the create handler: \<open>i\<close> is the value \<open>nextId++\<close> returns.\<close>

definition new_user :: "nat \<Rightarrow> reqbody \<Rightarrow> jsstring \<Rightarrow> user" where
  "new_user i b now =
     \<lparr>user_id = i, name = b_name b, email = b_email b, createdAt = now, updatedAt = None\<rparr>"

definition post_users :: "server \<Rightarrow> reqbody \<Rightarrow> jsstring \<Rightarrow> unit settled \<Rightarrow> server \<times> effect list" where
  "post_users st b now pub =
     (if \<not> truthy (b_name b) \<or> \<not> truthy (b_email b)
      then (st, [Respond 400 (ErrorBody ''Name and email are required'')])
      else
        let u = new_user (nextId st) b now;
            st' = st\<lparr>users := users st @ [u], nextId := js_incr (nextId st)\<rparr>
        in (st', publish_created st' u pub @ [Respond 201 (UserBody u)]))"

definition put_user :: "server \<Rightarrow> jsstring \<Rightarrow> reqbody \<Rightarrow> jsstring \<Rightarrow> server \<times> effect list" where
  "put_user st seg b now =
     (let userId = parseInt seg in
      case findIndex (id_is userId) (users st) of
        None \<Rightarrow> (st, [Respond 404 (ErrorBody ''User not found'')])
      | Some i \<Rightarrow>
          let old = users st ! i;
              new = old\<lparr>name := js_or (b_name b) (name old),
                        email := js_or (b_email b) (email old),
                        updatedAt := Some now\<rparr>
          in (st\<lparr>users := (users st)[i := new]\<rparr>, [Respond 200 (UserBody new)]))"

definition delete_user :: "server \<Rightarrow> jsstring \<Rightarrow> server \<times> effect list" where
  "delete_user st seg =
     (let userId = parseInt seg in
      case findIndex (id_is userId) (users st) of
        None \<Rightarrow> (st, [Respond 404 (ErrorBody ''User not found'')])
      | Some i \<Rightarrow> (st\<lparr>users := splice1 i (users st)\<rparr>, [Respond 204 NoBody]))"

text \<open>The \<open>SIGTERM\<close> handler, given how \<open>nats.close()\<close> settles.\<close>

definition sigterm :: "server \<Rightarrow> unit settled \<Rightarrow> effect list" where
  "sigterm st fin =
     ConsoleLog ''SIGTERM received, shutting down gracefully'' [] #
     (case nats st of
        None \<Rightarrow> [ProcessExit 0]
      | Some c \<Rightarrow>
          (case fin of
             Resolved _ \<Rightarrow> [NatsClose, Awaited None, ProcessExit 0]
           | Rejected e \<Rightarrow> [NatsClose, Awaited (Some e), UnhandledRejection e]))"

section \<open>Sequences of events\<close>

text \<open>
  The life of the process before it exits: the completion of \<open>initNATS\<close> (started
  by the \<open>listen\<close> callback) and the requests, each handled to its response. A
  request suspended in its \<open>await\<close> keeps the \<open>user\<close> object it built, and no other
  handler mutates that object (the update handler replaces the array slot by a
  fresh object), so handling the requests one after the other gives every response
  the interleaved execution gives.
\<close>

datatype event =
    Startup "nats_client settled"
  | GetReady
  | GetUsers
  | GetUser jsstring
  | PostUsers reqbody jsstring "unit settled"
  | PutUser jsstring reqbody jsstring
  | DeleteUser jsstring

fun handle :: "server \<Rightarrow> event \<Rightarrow> server \<times> effect list" where
  "handle st (Startup conn) = (case initNATS st conn of (st', es, _) \<Rightarrow> (st', es))"
| "handle st GetReady = get_ready st"
| "handle st GetUsers = get_users st"
| "handle st (GetUser seg) = get_user st seg"
| "handle st (PostUsers b now pub) = post_users st b now pub"
| "handle st (PutUser seg b now) = put_user st seg b now"
| "handle st (DeleteUser seg) = delete_user st seg"

fun run :: "server \<Rightarrow> event list \<Rightarrow> server \<times> effect list" where
  "run st [] = (st, [])"
| "run st (ev # evs) =
     (case handle st ev of (st1, es1) \<Rightarrow>
        (case run st1 evs of (st2, es2) \<Rightarrow> (st2, es1 @ es2)))"

fun is_http :: "event \<Rightarrow> bool" where
  "is_http (Startup conn) = False"
| "is_http ev = True"

section \<open>The event loop\<close>

text \<open>
  An \<open>async\<close> function runs until its \<open>await\<close>, returns to the event loop, and is
  resumed when the awaited promise has settled; other handlers run in between. The
  program has three such points: \<open>await Client.connect(...)\<close> in \<open>initNATS\<close>,
  \<open>await nats.publish(...)\<close> in the create handler, which holds the \<open>user\<close> it built,
  and \<open>await nats.close()\<close> in the \<open>SIGTERM\<close> handler.
\<close>

datatype task = AwaitConnect | AwaitPublish user | AwaitClose

text \<open>The create handler up to its \<open>await\<close>, or to its end when it has none.\<close>

definition post_start :: "server \<Rightarrow> reqbody \<Rightarrow> jsstring \<Rightarrow> server \<times> effect list \<times> task option" where
  "post_start st b now =
     (if \<not> truthy (b_name b) \<or> \<not> truthy (b_email b)
      then (st, [Respond 400 (ErrorBody ''Name and email are required'')], None)
      else
        let u = new_user (nextId st) b now;
            st' = st\<lparr>users := users st @ [u], nextId := js_incr (nextId st)\<rparr>
        in (case nats st' of
              None \<Rightarrow> (st', [Respond 201 (UserBody u)], None)
            | Some c \<Rightarrow> (st', [NatsPublish ''user.created'' u], Some (AwaitPublish u))))"

text \<open>The \<open>SIGTERM\<close> handler up to its \<open>await\<close>; the flag says that the process has exited.\<close>

definition sigterm_start :: "server \<Rightarrow> effect list \<times> task option \<times> bool" where
  "sigterm_start st =
     (case nats st of
        None \<Rightarrow>
          ([ConsoleLog ''SIGTERM received, shutting down gracefully'' [], ProcessExit 0], None, True)
      | Some c \<Rightarrow>
          ([ConsoleLog ''SIGTERM received, shutting down gracefully'' [], NatsClose],
           Some AwaitClose, False))"

text \<open>
  A suspended handler from its \<open>await\<close> to its end, given how the promise settled
  (\<open>None\<close>: fulfilled). An unhandled rejection ends a Node process, as
  \<open>process.exit\<close> does.
\<close>

definition resume :: "server \<Rightarrow> task \<Rightarrow> js_error option \<Rightarrow> server \<times> effect list \<times> bool" where
  "resume st t r =
     (case t of
        AwaitConnect \<Rightarrow>
          (case r of
             None \<Rightarrow>
               (st\<lparr>nats := Some NatsClient\<rparr>, [Awaited None, ConsoleLog ''Connected to NATS'' []], False)
           | Some (Error msg) \<Rightarrow>
               (st, [Awaited (Some (Error msg)), ConsoleLog ''NATS connection failed:'' [LStr msg],
                     ConsoleLog ''Continuing without NATS integration'' []], False))
      | AwaitPublish u \<Rightarrow>
          (case r of
             None \<Rightarrow>
               (st, [Awaited None, ConsoleLog ''Published user.created event:'' [LNum (user_id u)],
                     Respond 201 (UserBody u)], False)
           | Some e \<Rightarrow>
               (st, [Awaited (Some e), ConsoleError ''Failed to publish event:'' [LErr e],
                     Respond 201 (UserBody u)], False))
      | AwaitClose \<Rightarrow>
          (case r of
             None \<Rightarrow> (st, [Awaited None, ProcessExit 0], True)
           | Some e \<Rightarrow> (st, [Awaited (Some e), UnhandledRejection e], True)))"

definition outcome :: "'a settled \<Rightarrow> js_error option" where
  "outcome s = (case s of Resolved x \<Rightarrow> None | Rejected e \<Rightarrow> Some e)"

text \<open>
  The process: the module's variables, the suspended handlers, and whether it has
  exited. Its inputs: the \<open>listen\<close> callback (with the port it logs), a create request,
  the signal, the settling of the promise the \<open>k\<close>-th suspended handler awaits, and
  any event handled in one piece (a handler without \<open>await\<close>, or one whose promise
  settles before anything else happens).
\<close>

record process =
  vars :: server
  waiting :: "task list"
  halted :: bool

datatype input =
    Listening string
  | Create reqbody jsstring
  | Sigterm
  | Settles nat "js_error option"
  | Whole event

definition step :: "process \<Rightarrow> input \<Rightarrow> process \<times> effect list" where
  "step p i =
     (if halted p then (p, [])
      else
        (case i of
           Listening port \<Rightarrow>
             (p\<lparr>waiting := waiting p @ [AwaitConnect]\<rparr>,
              [ConsoleLog (''User service listening on port '' @ port) [], NatsConnect])
         | Create b now \<Rightarrow>
             (case post_start (vars p) b now of
                (st', es, t) \<Rightarrow>
                  (p\<lparr>vars := st', waiting := waiting p @ (case t of None \<Rightarrow> [] | Some k \<Rightarrow> [k])\<rparr>, es))
         | Sigterm \<Rightarrow>
             (case sigterm_start (vars p) of
                (es, t, h) \<Rightarrow>
                  (p\<lparr>waiting := waiting p @ (case t of None \<Rightarrow> [] | Some k \<Rightarrow> [k]), halted := h\<rparr>, es))
         | Settles k r \<Rightarrow>
             (if k < length (waiting p)
              then (case resume (vars p) (waiting p ! k) r of
                      (st', es, h) \<Rightarrow>
                        (p\<lparr>vars := st', waiting := splice1 k (waiting p), halted := h\<rparr>, es))
              else (p, []))
         | Whole ev \<Rightarrow>
             (case handle (vars p) ev of (st', es) \<Rightarrow> (p\<lparr>vars := st'\<rparr>, es))))"

fun steps :: "process \<Rightarrow> input list \<Rightarrow> process \<times> effect list" where
  "steps p [] = (p, [])"
| "steps p (i # is) =
     (case step p i of (p1, es1) \<Rightarrow>
        (case steps p1 is of (p2, es2) \<Rightarrow> (p2, es1 @ es2)))"

definition serving :: "server \<Rightarrow> process" where
  "serving st = \<lparr>vars = st, waiting = [], halted = False\<rparr>"

section \<open>Reading a trace\<close>

fun is_respond :: "effect \<Rightarrow> bool" where
  "is_respond (Respond status b) = True"
| "is_respond e = False"

fun is_awaited :: "effect \<Rightarrow> bool" where
  "is_awaited (Awaited r) = True"
| "is_awaited e = False"

definition responses :: "effect list \<Rightarrow> effect list" where
  "responses es = filter is_respond es"

text \<open>What a handler has done by the time its first \<open>await\<close> returns.\<close>

definition before_await :: "effect list \<Rightarrow> effect list" where
  "before_await es = takeWhile (\<lambda>e. \<not> is_awaited e) es"

text \<open>The ids handed out by the successful creates of a trace, in order.\<close>

fun created_id :: "effect \<Rightarrow> nat option" where
  "created_id (Respond status (UserBody u)) = (if status = 201 then Some (user_id u) else None)"
| "created_id e = None"

definition created_ids :: "effect list \<Rightarrow> nat list" where
  "created_ids es = List.map_filter created_id es"

text \<open>The ids of the stored records, in the order of the store.\<close>

definition ids :: "server \<Rightarrow> nat list" where
  "ids st = map user_id (users st)"

text \<open>
  What holds of the store in every state the service reaches: the counter stays
  between 1 and \<open>exact_limit\<close>, every stored id was handed out by the counter, and
  the ids below \<open>exact_limit\<close> are stored at most once.
\<close>

definition store_inv :: "server \<Rightarrow> bool" where
  "store_inv st \<longleftrightarrow>
     1 \<le> nextId st \<and> nextId st \<le> exact_limit \<and>
     list_all (\<lambda>k. 1 \<le> k \<and> (k < nextId st \<or> (k = exact_limit \<and> nextId st = exact_limit)))
       (ids st) \<and>
     distinct (filter (\<lambda>k. k < exact_limit) (ids st))"

text \<open>
  The condition of the create handler as the specification words it: a field that
  is absent, \<open>null\<close> or the empty text.
\<close>

definition spec_empty_or_absent :: "jsvalue \<Rightarrow> bool" where
  "spec_empty_or_absent v \<longleftrightarrow> v = Undefined \<or> v = Null \<or> v = Str []"

definition has_leading_digit :: "jsstring \<Rightarrow> bool" where
  "has_leading_digit seg =
     (case snd (strip_sign (dropWhile is_whitespace seg)) of
        [] \<Rightarrow> False
      | c # rest \<Rightarrow> is_digit 10 c)"

section \<open>Inputs to compute on\<close>

definition ann :: user where
  "ann = \<lparr>user_id = 1, name = Str (ascii ''Ann''), email = Str (ascii ''ann@example.com''),
           createdAt = ascii ''2024-01-01T00:00:00.000Z'', updatedAt = None\<rparr>"

definition store1 :: server where
  "store1 = \<lparr>users = [ann], nextId = 2, nats = None\<rparr>"

definition connected1 :: server where
  "connected1 = \<lparr>users = [ann], nextId = 2, nats = Some NatsClient\<rparr>"

definition john :: reqbody where
  "john = \<lparr>b_name = Str (ascii ''John Doe''), b_email = Str (ascii ''john@example.com'')\<rparr>"

text \<open>\<open>String(n)\<close> for a natural number: its decimal digits.\<close>

fun decimal :: "nat \<Rightarrow> jsstring" where
  "decimal n = (if n < 10 then [48 + n] else decimal (n div 10) @ [48 + n mod 10])"

declare decimal.simps [simp del]

text \<open>
  \<open>n\<close> rounds of a create followed by the delete of the id \<open>1, 2, ..., n\<close>: a long
  run that never holds more than one record.
\<close>

fun churn :: "event \<Rightarrow> nat \<Rightarrow> event list" where
  "churn P 0 = []"
| "churn P (Suc n) = churn P n @ [P, DeleteUser (decimal (Suc n))]"


section \<open>Facts about the number model\<close>

lemma bit_length_le_iff: "bit_length n \<le> k \<longleftrightarrow> n < 2 ^ k"
proof (induction k arbitrary: n)
  case 0
  show ?case by (subst bit_length.simps) simp
next
  case (Suc k)
  have "bit_length n \<le> Suc k \<longleftrightarrow> n = 0 \<or> bit_length (n div 2) \<le> k"
    by (subst bit_length.simps) simp
  also have "\<dots> \<longleftrightarrow> n = 0 \<or> n div 2 < 2 ^ k"
    by (simp add: Suc.IH)
  also have "\<dots> \<longleftrightarrow> n < 2 ^ Suc k"
    by auto
  finally show ?case .
qed

lemma round_nat_exact: "m \<le> exact_limit \<Longrightarrow> round_nat m = m"
proof (cases "m < 2 ^ 53")
  case True
  then show ?thesis by (simp add: round_nat_def bit_length_le_iff)
next
  case False
  moreover assume "m \<le> exact_limit"
  ultimately have "m = 9007199254740992" by (simp add: exact_limit_def)
  then show ?thesis by (simp add: round_nat_def bit_length.simps)
qed

lemma round_nat_limit_Suc: "round_nat (exact_limit + 1) = exact_limit"
  by (simp add: round_nat_def exact_limit_def bit_length.simps)

lemma js_incr_cases:
  "n \<le> exact_limit \<Longrightarrow> js_incr n = (if n < exact_limit then n + 1 else n)"
  using round_nat_exact [of "n + 1"] round_nat_limit_Suc
  by (auto simp: js_incr_def)

lemma exact_limit_numeral: "exact_limit = 9007199254740992"
  by (simp add: exact_limit_def)

section \<open>Facts about parseInt\<close>

lemmas eval_parse =
  parseInt_def ascii_def is_whitespace_def strip_sign_def strip_prefix_def is_digit_def
  digit_value_def math_int_def to_number_def round_nat_def bit_length.simps negate_def

lemma parseInt_no_digit: "\<not> has_leading_digit seg \<Longrightarrow> parseInt seg = NaN"
proof -
  assume h: "\<not> has_leading_digit seg"
  obtain neg S1 where s: "strip_sign (dropWhile is_whitespace seg) = (neg, S1)"
    by (cases "strip_sign (dropWhile is_whitespace seg)")
  show ?thesis
  proof (cases S1)
    case Nil
    with s show ?thesis
      by (simp add: parseInt_def strip_prefix_def)
  next
    case (Cons c rest)
    with h s have nd: "\<not> is_digit 10 c"
      by (simp add: has_leading_digit_def)
    then have "c \<noteq> 48"
      by (auto simp: is_digit_def digit_value_def)
    then have "strip_prefix S1 = (10, S1)"
      by (simp add: strip_prefix_def Cons split: list.splits)
    with s nd Cons show ?thesis
      by (simp add: parseInt_def)
  qed
qed

lemma decimal_digits: "c \<in> set (decimal n) \<Longrightarrow> 48 \<le> c \<and> c \<le> 57"
proof (induction n rule: decimal.induct)
  case (1 n)
  show ?case
  proof (cases "n < 10")
    case True
    with "1.prems" show ?thesis by (subst (asm) decimal.simps) simp
  next
    case False
    have "n mod 10 < 10" by simp
    with False "1.prems" "1.IH" show ?thesis
      by (subst (asm) decimal.simps) auto
  qed
qed

lemma decimal_not_Nil: "decimal n \<noteq> []"
  by (subst decimal.simps) simp

lemma math_int_snoc:
  "math_int R (Z @ [c]) = math_int R Z * R + (case digit_value c of None \<Rightarrow> 0 | Some d \<Rightarrow> d)"
  by (simp add: math_int_def)

lemma math_int_decimal: "math_int 10 (decimal n) = n"
proof (induction n rule: decimal.induct)
  case (1 n)
  show ?case
  proof (cases "n < 10")
    case True
    then show ?thesis
      by (subst decimal.simps) (simp add: math_int_def digit_value_def)
  next
    case False
    have "n mod 10 < 10" by simp
    then have "digit_value (48 + n mod 10) = Some (n mod 10)"
      by (simp add: digit_value_def)
    with False "1.IH" show ?thesis
      by (subst decimal.simps) (simp add: math_int_snoc)
  qed
qed

lemma digit_facts:
  assumes "48 \<le> c \<and> c \<le> 57"
  shows "is_digit 10 c" "\<not> is_whitespace c" "c \<noteq> 45" "c \<noteq> 43" "c \<noteq> 120" "c \<noteq> 88"
  using assms by (auto simp: is_digit_def digit_value_def is_whitespace_def)

lemma parseInt_decimal: "n \<le> exact_limit \<Longrightarrow> parseInt (decimal n) = Fin (of_nat n)"
proof -
  assume n: "n \<le> exact_limit"
  obtain c rest where ds: "decimal n = c # rest"
    using decimal_not_Nil [of n] by (cases "decimal n") auto
  have all: "\<forall>x \<in> set (c # rest). 48 \<le> x \<and> x \<le> 57"
    using decimal_digits [of _ n] by (simp add: ds)
  then have c: "48 \<le> c \<and> c \<le> 57" by simp
  note cf = digit_facts [OF c]
  have 1: "dropWhile is_whitespace (c # rest) = c # rest"
    using cf(2) by simp
  have 2: "strip_sign (c # rest) = (False, c # rest)"
    using cf(3,4) by (simp add: strip_sign_def)
  have 3: "strip_prefix (c # rest) = (10, c # rest)"
  proof (cases rest)
    case Nil
    then show ?thesis by (simp add: strip_prefix_def)
  next
    case (Cons x xs)
    with all have "48 \<le> x \<and> x \<le> 57" by simp
    from digit_facts(5,6) [OF this] Cons show ?thesis
      by (simp add: strip_prefix_def)
  qed
  have 4: "takeWhile (is_digit 10) (c # rest) = c # rest"
    using all digit_facts(1) by (intro takeWhile_eq_all_conv [THEN iffD2]) blast
  have "round_nat n = n" using n by (rule round_nat_exact)
  moreover have "n < 2 ^ 1024"
    using n by (simp add: exact_limit_numeral)
  ultimately have 5: "to_number n = Fin (of_nat n)"
    by (simp add: to_number_def)
  have "math_int 10 (c # rest) = n"
    using math_int_decimal [of n] by (simp add: ds)
  with 1 2 3 4 5 show ?thesis
    by (simp add: parseInt_def ds)
qed

lemma decimal_first:
  "1 \<le> n \<Longrightarrow> \<exists>c cs. decimal n = c # cs \<and> c \<noteq> 48"
proof (induction n rule: decimal.induct)
  case (1 n)
  show ?case
  proof (cases "n < 10")
    case True
    with "1.prems" show ?thesis by (subst decimal.simps) simp
  next
    case False
    then have "1 \<le> n div 10" by simp
    from "1.IH" [OF False this] obtain c cs where "decimal (n div 10) = c # cs" "c \<noteq> 48"
      by blast
    with False show ?thesis by (subst decimal.simps) simp
  qed
qed

lemma parseInt_decimal_prefix:
  assumes n: "1 \<le> n" "n \<le> exact_limit" and r: "takeWhile (is_digit 10) rest = []"
  shows "parseInt (decimal n @ rest) = Fin (of_nat n)"
proof -
  from decimal_first [OF n(1)] obtain c cs where ds: "decimal n = c # cs" and c0: "c \<noteq> 48"
    by blast
  have all: "\<forall>x \<in> set (c # cs). 48 \<le> x \<and> x \<le> 57"
    using decimal_digits [of _ n] by (simp add: ds)
  then have c: "48 \<le> c \<and> c \<le> 57" by simp
  note cf = digit_facts [OF c]
  have 1: "dropWhile is_whitespace (c # cs @ rest) = c # cs @ rest"
    using cf(2) by simp
  have 2: "strip_sign (c # cs @ rest) = (False, c # cs @ rest)"
    using cf(3,4) by (simp add: strip_sign_def)
  have 3: "strip_prefix (c # cs @ rest) = (10, c # cs @ rest)"
    using c0 by (simp add: strip_prefix_def split: list.splits)
  have "takeWhile (is_digit 10) ((c # cs) @ rest) = (c # cs) @ takeWhile (is_digit 10) rest"
    using all digit_facts(1) by (intro takeWhile_append2) blast
  with r have 4: "takeWhile (is_digit 10) (c # cs @ rest) = c # cs"
    by simp
  have "round_nat n = n" using n(2) by (rule round_nat_exact)
  moreover have "n < 2 ^ 1024"
    using n(2) by (simp add: exact_limit_numeral)
  ultimately have 5: "to_number n = Fin (of_nat n)"
    by (simp add: to_number_def)
  have 6: "math_int 10 (c # cs) = n"
    using math_int_decimal [of n] by (simp add: ds)
  from 1 2 3 4 5 6 show ?thesis
    by (simp add: parseInt_def ds)
qed

lemma limit_numerals:
  "Suc 9007199254740991 = exact_limit"
  "parseInt (ascii ''9007199254740992'') = Fin (of_nat (Suc 9007199254740991))"
  by (simp_all add: exact_limit_numeral eval_parse)

section \<open>Facts about the lookups\<close>

lemma findIndex_None: "findIndex P xs = None \<longleftrightarrow> (\<forall>x \<in> set xs. \<not> P x)"
  by (induction xs) (auto split: option.splits)

lemma findIndex_Some:
  "findIndex P xs = Some i \<Longrightarrow> i < length xs \<and> P (xs ! i) \<and> (\<forall>j < i. \<not> P (xs ! j))"
proof (induction xs arbitrary: i)
  case Nil
  then show ?case by simp
next
  case (Cons x xs)
  show ?case
  proof (cases "P x")
    case True
    with Cons.prems show ?thesis by simp
  next
    case False
    with Cons.prems obtain k where k: "findIndex P xs = Some k" "i = Suc k"
      by (auto split: option.splits)
    from Cons.IH [OF k(1)] False k(2) show ?thesis
      by (auto simp: less_Suc_eq_0_disj)
  qed
qed

lemma findIndex_first:
  "i < length xs \<Longrightarrow> P (xs ! i) \<Longrightarrow> (\<forall>j < i. \<not> P (xs ! j)) \<Longrightarrow> findIndex P xs = Some i"
proof -
  assume a: "i < length xs" "P (xs ! i)" "\<forall>j < i. \<not> P (xs ! j)"
  then have "findIndex P xs \<noteq> None"
    by (auto simp: findIndex_None)
  then obtain k where k: "findIndex P xs = Some k" by auto
  from findIndex_Some [OF k] a have "\<not> k < i" "\<not> i < k" by auto
  with k show ?thesis by simp
qed

lemma findIndex_ex: "(\<exists>x \<in> set xs. P x) \<Longrightarrow> \<exists>i. findIndex P xs = Some i"
  using findIndex_None [of P xs] by auto

lemma find_findIndex:
  "find P xs = (case findIndex P xs of None \<Rightarrow> None | Some i \<Rightarrow> Some (xs ! i))"
  by (induction xs) (auto split: option.splits)

lemma id_is_NaN: "\<not> id_is NaN u"
  by (simp add: id_is_def)

lemma id_is_of_nat: "id_is (Fin (of_nat k)) u \<longleftrightarrow> user_id u = k"
  by (auto simp: id_is_def)

lemma id_is_of_nat_fun: "id_is (Fin (of_nat k)) = (\<lambda>u. user_id u = k)"
  by (rule ext) (rule id_is_of_nat)

lemma id_is_same_id: "id_is n u \<Longrightarrow> id_is n v \<Longrightarrow> user_id u = user_id v"
  by (simp add: id_is_def)

lemma distinct_ids_same:
  assumes "distinct (map user_id xs)" "i < length xs" "u \<in> set xs" "user_id (xs ! i) = user_id u"
  shows "xs ! i = u"
proof -
  from assms(3) obtain j where j: "j < length xs" "xs ! j = u"
    by (auto simp: in_set_conv_nth)
  with assms(2,4) have "map user_id xs ! i = map user_id xs ! j" by simp
  with assms(1,2) j(1) have "i = j"
    using nth_eq_iff_index_eq [of "map user_id xs" i j] by simp
  with j(2) show ?thesis by simp
qed

lemma distinct_filter_index:
  "distinct (filter P xs) \<Longrightarrow> i < length xs \<Longrightarrow> j < length xs \<Longrightarrow> xs ! i = xs ! j \<Longrightarrow>
   P (xs ! i) \<Longrightarrow> i = j"
proof (induction xs arbitrary: i j)
  case Nil
  then show ?case by simp
next
  case (Cons x xs)
  show ?case
  proof (cases i)
    case 0
    show ?thesis
    proof (cases j)
      case (Suc j')
      with 0 Cons.prems have "x = xs ! j'" "j' < length xs" "P x" by simp_all
      then have "x \<in> set (filter P xs)" by simp
      with Cons.prems(1) \<open>P x\<close> show ?thesis by simp
    qed (simp add: 0)
  next
    case (Suc i')
    show ?thesis
    proof (cases j)
      case 0
      with Suc Cons.prems have "x = xs ! i'" "i' < length xs" "P x" by simp_all
      then have "x \<in> set (filter P xs)" by simp
      with Cons.prems(1) \<open>P x\<close> show ?thesis by simp
    next
      case j: (Suc j')
      from Cons.prems(1) have "distinct (filter P xs)" by (simp split: if_splits)
      from Cons.IH [OF this, of i' j'] Cons.prems Suc j show ?thesis by simp
    qed
  qed
qed

lemma splice1_map: "map f (splice1 i xs) = splice1 i (map f xs)"
  by (simp add: splice1_def take_map drop_map)

lemma splice1_set: "set (splice1 i xs) \<subseteq> set xs"
  using set_take_subset [of i xs] set_drop_subset [of "Suc i" xs]
  by (auto simp: splice1_def)

lemma splice1_distinct_filter:
  "distinct (filter P xs) \<Longrightarrow> distinct (filter P (splice1 i xs))"
proof (cases "i < length xs")
  case True
  assume d: "distinct (filter P xs)"
  from True have "xs = take i xs @ xs ! i # drop (Suc i) xs"
    by (simp add: id_take_nth_drop)
  then have "filter P xs = filter P (take i xs) @ filter P [xs ! i] @ filter P (drop (Suc i) xs)"
    by (metis append_Cons append_Nil filter_append)
  with d have "distinct (filter P (take i xs) @ filter P [xs ! i] @ filter P (drop (Suc i) xs))"
    by simp
  then show ?thesis
    by (auto simp: splice1_def)
next
  case False
  assume "distinct (filter P xs)"
  with False show ?thesis by (simp add: splice1_def)
qed

lemma first_match_unique:
  assumes i: "findIndex (\<lambda>u. user_id u = k) us = Some i"
    and d: "distinct (filter (\<lambda>n. n < L) (map user_id us))"
    and k: "k < L"
  shows "splice1 i us = filter (\<lambda>u. user_id u \<noteq> k) us"
proof -
  from findIndex_Some [OF i]
  have len: "i < length us" and at: "user_id (us ! i) = k"
    and before: "\<forall>j < i. user_id (us ! j) \<noteq> k"
    by simp_all
  from len have dec: "us = take i us @ us ! i # drop (Suc i) us"
    by (simp add: id_take_nth_drop)
  have pre: "\<forall>u \<in> set (take i us). user_id u \<noteq> k"
  proof
    fix u assume "u \<in> set (take i us)"
    then obtain j where "j < i" "j < length us" "u = us ! j"
      by (auto simp: in_set_conv_nth)
    with before show "user_id u \<noteq> k" by simp
  qed
  have "map user_id us = map user_id (take i us) @ k # map user_id (drop (Suc i) us)"
    by (subst dec) (simp add: at)
  with d k have "distinct (filter (\<lambda>n. n < L) (map user_id (take i us)) @
                   k # filter (\<lambda>n. n < L) (map user_id (drop (Suc i) us)))"
    by simp
  then have "k \<notin> set (filter (\<lambda>n. n < L) (map user_id (drop (Suc i) us)))"
    by simp
  with k have post: "\<forall>u \<in> set (drop (Suc i) us). user_id u \<noteq> k"
    by auto
  have "filter (\<lambda>u. user_id u \<noteq> k) us =
        filter (\<lambda>u. user_id u \<noteq> k) (take i us) @ filter (\<lambda>u. user_id u \<noteq> k) [us ! i] @
        filter (\<lambda>u. user_id u \<noteq> k) (drop (Suc i) us)"
    by (subst dec) simp
  also have "filter (\<lambda>u. user_id u \<noteq> k) (take i us) = take i us"
    using pre by (simp add: filter_id_conv)
  also have "filter (\<lambda>u. user_id u \<noteq> k) (drop (Suc i) us) = drop (Suc i) us"
    using post by (simp add: filter_id_conv)
  also have "filter (\<lambda>u. user_id u \<noteq> k) [us ! i] = []"
    by (simp add: at)
  finally show ?thesis by (simp add: splice1_def)
qed

section \<open>The handlers, case by case\<close>

lemma get_user_absent:
  "\<forall>u \<in> set (users st). \<not> id_is (parseInt seg) u \<Longrightarrow>
   get_user st seg = (st, [Respond 404 (ErrorBody ''User not found'')])"
  using find_None_iff [of "id_is (parseInt seg)" "users st"]
  by (auto simp: get_user_def)

lemma put_user_absent:
  "\<forall>u \<in> set (users st). \<not> id_is (parseInt seg) u \<Longrightarrow>
   put_user st seg b now = (st, [Respond 404 (ErrorBody ''User not found'')])"
  using findIndex_None [of "id_is (parseInt seg)" "users st"]
  by (simp add: put_user_def)

lemma delete_user_absent:
  "\<forall>u \<in> set (users st). \<not> id_is (parseInt seg) u \<Longrightarrow>
   delete_user st seg = (st, [Respond 404 (ErrorBody ''User not found'')])"
  using findIndex_None [of "id_is (parseInt seg)" "users st"]
  by (simp add: delete_user_def)

lemma put_user_found:
  "findIndex (id_is (parseInt seg)) (users st) = Some i \<Longrightarrow>
   put_user st seg b now =
     (st\<lparr>users := (users st)[i := (users st ! i)\<lparr>name := js_or (b_name b) (name (users st ! i)),
                                                   email := js_or (b_email b) (email (users st ! i)),
                                                   updatedAt := Some now\<rparr>]\<rparr>,
      [Respond 200 (UserBody ((users st ! i)\<lparr>name := js_or (b_name b) (name (users st ! i)),
                                              email := js_or (b_email b) (email (users st ! i)),
                                              updatedAt := Some now\<rparr>))])"
  by (simp add: put_user_def Let_def)

lemma delete_user_found:
  "findIndex (id_is (parseInt seg)) (users st) = Some i \<Longrightarrow>
   delete_user st seg = (st\<lparr>users := splice1 i (users st)\<rparr>, [Respond 204 NoBody])"
  by (simp add: delete_user_def)

lemma get_user_found:
  "findIndex (id_is (parseInt seg)) (users st) = Some i \<Longrightarrow>
   get_user st seg = (st, [Respond 200 (UserBody (users st ! i))])"
  by (simp add: get_user_def find_findIndex)

lemma delete_user_present:
  "\<exists>u \<in> set (users st). id_is (parseInt seg) u \<Longrightarrow>
   \<exists>i < length (users st). id_is (parseInt seg) (users st ! i) \<and>
     (\<forall>j < i. \<not> id_is (parseInt seg) (users st ! j)) \<and>
     delete_user st seg =
       (st\<lparr>users := take i (users st) @ drop (Suc i) (users st)\<rparr>, [Respond 204 NoBody])"
proof -
  assume "\<exists>u \<in> set (users st). id_is (parseInt seg) u"
  from findIndex_ex [OF this]
  obtain i where i: "findIndex (id_is (parseInt seg)) (users st) = Some i" ..
  have "delete_user st seg =
       (st\<lparr>users := take i (users st) @ drop (Suc i) (users st)\<rparr>, [Respond 204 NoBody])"
    by (simp add: delete_user_found [OF i] splice1_def)
  with findIndex_Some [OF i] show ?thesis
    by (intro exI [of _ i]) simp
qed

lemma js_or_retains: "js_or (Str []) v = v" "js_or Undefined v = v"
  by (simp_all add: js_or_def)




lemma post_users_invalid:
  "\<not> truthy (b_name b) \<or> \<not> truthy (b_email b) \<Longrightarrow>
   post_users st b now pub = (st, [Respond 400 (ErrorBody ''Name and email are required'')])"
  by (simp add: post_users_def)

lemma post_users_valid:
  "truthy (b_name b) \<Longrightarrow> truthy (b_email b) \<Longrightarrow>
   post_users st b now pub =
     (st\<lparr>users := users st @ [new_user (nextId st) b now], nextId := js_incr (nextId st)\<rparr>,
      publish_created st (new_user (nextId st) b now) pub @
        [Respond 201 (UserBody (new_user (nextId st) b now))])"
  by (simp add: post_users_def Let_def publish_created_def)

lemma publish_created_cases:
  "nats st = None \<Longrightarrow> publish_created st u pub = []"
  "nats st \<noteq> None \<Longrightarrow> publish_created st u (Resolved x) =
     [NatsPublish ''user.created'' u, Awaited None,
      ConsoleLog ''Published user.created event:'' [LNum (user_id u)]]"
  "nats st \<noteq> None \<Longrightarrow> publish_created st u (Rejected e) =
     [NatsPublish ''user.created'' u, Awaited (Some e),
      ConsoleError ''Failed to publish event:'' [LErr e]]"
  by (auto simp: publish_created_def split: option.splits)

lemma responses_publish_created: "responses (publish_created st u pub) = []"
  by (cases "nats st"; cases pub) (simp_all add: publish_created_def responses_def)

lemma falsy_values:
  "\<not> truthy v \<longleftrightarrow> v \<in> {Undefined, Null, Bool False, Num NaN, Num (Fin 0), Str []}"
  by (cases v) auto

lemma initNATS_rejected:
  "initNATS st (Rejected (Error msg)) =
     (st, [NatsConnect, Awaited (Some (Error msg)),
           ConsoleLog ''NATS connection failed:'' [LStr msg],
           ConsoleLog ''Continuing without NATS integration'' []], Resolved ())"
  by (simp add: initNATS_def)

lemma john_valid: "truthy (b_name john)" "truthy (b_email john)"
  by (simp_all add: john_def ascii_def)

section \<open>Facts about runs\<close>

lemma run_append:
  "run st (xs @ ys) =
     (case run st xs of (st1, es1) \<Rightarrow> (case run st1 ys of (st2, es2) \<Rightarrow> (st2, es1 @ es2)))"
  by (induction xs arbitrary: st) (auto split: prod.splits)

lemma fst_run_append: "fst (run st (xs @ ys)) = fst (run (fst (run st xs)) ys)"
  by (simp add: run_append split: prod.splits)

lemma snd_run_append:
  "snd (run st (xs @ ys)) = snd (run st xs) @ snd (run (fst (run st xs)) ys)"
  by (simp add: run_append split: prod.splits)

lemma fst_run_Cons: "fst (run st (ev # evs)) = fst (run (fst (handle st ev)) evs)"
  by (simp split: prod.splits)

lemma snd_run_Cons:
  "snd (run st (ev # evs)) = snd (handle st ev) @ snd (run (fst (handle st ev)) evs)"
  by (simp split: prod.splits)

lemma handle_http_nats: "is_http ev \<Longrightarrow> nats (fst (handle st ev)) = nats st"
proof (cases ev)
  case (PostUsers b now pub)
  then show ?thesis
    by (cases "truthy (b_name b) \<and> truthy (b_email b)")
       (auto simp: post_users_valid post_users_invalid)
next
  case (PutUser seg b now)
  then show ?thesis
    by (cases "findIndex (id_is (parseInt seg)) (users st)")
       (simp_all add: put_user_found, simp add: put_user_def)
next
  case (DeleteUser seg)
  then show ?thesis
    by (cases "findIndex (id_is (parseInt seg)) (users st)")
       (simp_all add: delete_user_found, simp add: delete_user_def)
next
  case (GetUser seg)
  then show ?thesis
    by (simp add: get_user_def split: option.splits)
qed (simp_all add: get_ready_def get_users_def)

lemma run_http_nats: "list_all is_http evs \<Longrightarrow> nats (fst (run st evs)) = nats st"
proof (induction evs arbitrary: st)
  case Nil
  then show ?case by simp
next
  case (Cons ev evs)
  obtain st1 es1 where h: "handle st ev = (st1, es1)" by (cases "handle st ev")
  obtain st2 es2 where r: "run st1 evs = (st2, es2)" by (cases "run st1 evs")
  from Cons.prems have "is_http ev" "list_all is_http evs" by simp_all
  with Cons.IH [of st1] handle_http_nats [of ev st] h r show ?case by simp
qed

declare run.simps(2) [simp del]

lemma run_single: "run st [ev] = handle st ev"
  by (simp add: run.simps(2) split: prod.splits)

lemma run_two: "run st [e1, e2] = (case handle st e1 of (st1, es1) \<Rightarrow>
    (case handle st1 e2 of (st2, es2) \<Rightarrow> (st2, es1 @ es2)))"
  by (simp add: run.simps(2) split: prod.splits)

lemma created_ids_append: "created_ids (xs @ ys) = created_ids xs @ created_ids ys"
  by (simp add: created_ids_def map_filter_def)

lemma created_ids_publish_created: "created_ids (publish_created st u pub) = []"
  by (cases "nats st"; cases pub) (simp_all add: publish_created_def created_ids_def map_filter_def)

text \<open>What one event does to the stored ids, the counter and the ids handed out.\<close>

lemma handle_ids:
  "(created_ids (snd (handle st ev)) = [] \<and> nextId (fst (handle st ev)) = nextId st \<and>
      (ids (fst (handle st ev)) = ids st \<or> (\<exists>i. ids (fst (handle st ev)) = splice1 i (ids st)))) \<or>
   (created_ids (snd (handle st ev)) = [nextId st] \<and>
      nextId (fst (handle st ev)) = js_incr (nextId st) \<and>
      ids (fst (handle st ev)) = ids st @ [nextId st])"
proof (cases ev)
  case (Startup conn)
  then show ?thesis
    by (cases conn rule: settled.exhaust)
       (auto simp: initNATS_def ids_def created_ids_def map_filter_def split: js_error.splits)
next
  case GetReady
  then show ?thesis by (simp add: get_ready_def created_ids_def map_filter_def)
next
  case GetUsers
  then show ?thesis by (simp add: get_users_def created_ids_def map_filter_def)
next
  case (GetUser seg)
  then show ?thesis
    by (simp add: get_user_def created_ids_def map_filter_def split: option.splits)
next
  case (PostUsers b now pub)
  show ?thesis
  proof (cases "truthy (b_name b) \<and> truthy (b_email b)")
    case True
    then have "handle st ev =
      (st\<lparr>users := users st @ [new_user (nextId st) b now], nextId := js_incr (nextId st)\<rparr>,
       publish_created st (new_user (nextId st) b now) pub @
         [Respond 201 (UserBody (new_user (nextId st) b now))])"
      by (simp add: PostUsers post_users_valid)
    then show ?thesis
      by (simp add: created_ids_append created_ids_publish_created ids_def)
         (simp add: created_ids_def map_filter_def new_user_def)
  next
    case False
    then have "handle st ev = (st, [Respond 400 (ErrorBody ''Name and email are required'')])"
      using post_users_invalid [of b st now pub] by (simp add: PostUsers)
    then show ?thesis by (simp add: created_ids_def map_filter_def)
  qed
next
  case (PutUser seg b now)
  show ?thesis
  proof (cases "findIndex (id_is (parseInt seg)) (users st)")
    case None
    then show ?thesis
      by (simp add: PutUser put_user_def created_ids_def map_filter_def)
  next
    case (Some i)
    from findIndex_Some [OF Some] have "i < length (users st)" by simp
    then have "map user_id ((users st)[i := (users st ! i)
        \<lparr>name := js_or (b_name b) (name (users st ! i)),
           email := js_or (b_email b) (email (users st ! i)), updatedAt := Some now\<rparr>]) =
        map user_id (users st)"
      by (simp add: map_update list_update_same_conv)
    then show ?thesis
      by (simp add: PutUser put_user_found [OF Some] created_ids_def map_filter_def ids_def)
  qed
next
  case (DeleteUser seg)
  show ?thesis
  proof (cases "findIndex (id_is (parseInt seg)) (users st)")
    case None
    then show ?thesis
      by (simp add: DeleteUser delete_user_def created_ids_def map_filter_def)
  next
    case (Some i)
    then show ?thesis
      by (auto simp: DeleteUser delete_user_found [OF Some] created_ids_def map_filter_def
          ids_def splice1_map)
  qed
qed

lemma created_ids_run:
  "nextId st + length (created_ids (snd (run st evs))) \<le> exact_limit + 1 \<Longrightarrow>
   created_ids (snd (run st evs)) =
     [nextId st ..< nextId st + length (created_ids (snd (run st evs)))]"
proof (induction evs arbitrary: st)
  case Nil
  then show ?case by (simp add: created_ids_def map_filter_def)
next
  case (Cons ev evs)
  define st1 where "st1 = fst (handle st ev)"
  define rest where "rest = created_ids (snd (run st1 evs))"
  have split: "created_ids (snd (run st (ev # evs))) = created_ids (snd (handle st ev)) @ rest"
    by (simp only: snd_run_Cons created_ids_append rest_def st1_def)
  from handle_ids [of st ev]
  consider
    (same) "created_ids (snd (handle st ev)) = []" "nextId st1 = nextId st"
  | (new) "created_ids (snd (handle st ev)) = [nextId st]" "nextId st1 = js_incr (nextId st)"
    unfolding st1_def by blast
  then show ?case
  proof cases
    case same
    with Cons.prems split have "nextId st1 + length rest \<le> exact_limit + 1"
      by simp
    from Cons.IH [of st1, folded rest_def, OF this] same split show ?thesis
      by simp
  next
    case new
    show ?thesis
    proof (cases "rest = []")
      case True
      with new split show ?thesis by simp
    next
      case False
      then have "1 \<le> length rest" by (cases rest) simp_all
      moreover from Cons.prems split new
      have "nextId st + (1 + length rest) \<le> exact_limit + 1" by simp
      ultimately have lt: "nextId st < exact_limit"
        by linarith
      then have "js_incr (nextId st) = nextId st + 1"
        by (simp add: js_incr_cases)
      with new have n1: "nextId st1 = nextId st + 1" by simp
      with Cons.prems split new have "nextId st1 + length rest \<le> exact_limit + 1"
        by simp
      from Cons.IH [of st1, folded rest_def, OF this] n1
      have r: "rest = [Suc (nextId st) ..< Suc (nextId st) + length rest]" by simp
      define m where "m = length rest"
      have "[nextId st ..< nextId st + Suc m] = nextId st # [Suc (nextId st) ..< nextId st + Suc m]"
        by (rule upt_conv_Cons) simp
      also have "[Suc (nextId st) ..< nextId st + Suc m] = rest"
        using r unfolding m_def by simp
      finally have "nextId st # rest = [nextId st ..< nextId st + (1 + length rest)]"
        unfolding m_def by simp
      with split new show ?thesis by simp
    qed
  qed
qed

subsection \<open>The event loop\<close>

text \<open>The handlers in one piece are the handlers in two pieces, joined.\<close>

lemma post_users_pieces:
  "post_users st b now pub =
     (case post_start st b now of
        (st', es, None) \<Rightarrow> (st', es)
      | (st', es, Some t) \<Rightarrow> (case resume st' t (outcome pub) of (st'', es', h) \<Rightarrow> (st'', es @ es')))"
  by (cases pub; cases "nats st")
     (simp_all add: post_users_def post_start_def resume_def outcome_def publish_created_def
      Let_def new_user_def)

lemma sigterm_pieces:
  "sigterm st fin =
     (case sigterm_start st of
        (es, None, h) \<Rightarrow> es
      | (es, Some t, h) \<Rightarrow> (case resume st t (outcome fin) of (st', es', h') \<Rightarrow> es @ es'))"
  by (cases fin; cases "nats st")
     (simp_all add: sigterm_def sigterm_start_def resume_def outcome_def)

lemma initNATS_pieces:
  "initNATS st conn =
     (case resume st AwaitConnect (outcome conn) of
        (st', es, h) \<Rightarrow> (st', NatsConnect # es, Resolved ()))"
proof (cases conn)
  case (Resolved c)
  then show ?thesis
    by (cases c) (simp add: initNATS_def resume_def outcome_def)
next
  case (Rejected e)
  then show ?thesis
    by (cases e) (simp add: initNATS_def resume_def outcome_def)
qed

lemma steps_halted: "halted p \<Longrightarrow> steps p ins = (p, [])"
  by (induction ins) (simp_all add: step_def)

lemma step_create_connected:
  assumes "\<not> halted p" "truthy (b_name b)" "truthy (b_email b)" "nats (vars p) \<noteq> None"
  shows "step p (Create b now) =
           (p\<lparr>vars := (vars p)\<lparr>users := users (vars p) @ [new_user (nextId (vars p)) b now],
                                 nextId := js_incr (nextId (vars p))\<rparr>,
              waiting := waiting p @ [AwaitPublish (new_user (nextId (vars p)) b now)]\<rparr>,
            [NatsPublish ''user.created'' (new_user (nextId (vars p)) b now)])"
  using assms by (auto simp: step_def post_start_def Let_def)

lemma resume_publish:
  "\<exists>l. resume st (AwaitPublish u) r = (st, [Awaited r, l, Respond 201 (UserBody u)], False) \<and>
       \<not> is_respond l"
  by (cases r) (simp_all add: resume_def)

lemma step_sigterm:
  "\<not> halted p \<Longrightarrow> nats (vars p) = None \<Longrightarrow>
   step p Sigterm =
     (p\<lparr>halted := True\<rparr>,
      [ConsoleLog ''SIGTERM received, shutting down gracefully'' [], ProcessExit 0])"
  "\<not> halted p \<Longrightarrow> nats (vars p) \<noteq> None \<Longrightarrow>
   step p Sigterm =
     (p\<lparr>waiting := waiting p @ [AwaitClose]\<rparr>,
      [ConsoleLog ''SIGTERM received, shutting down gracefully'' [], NatsClose])"
  by (auto simp: step_def sigterm_start_def)

lemma step_close_settles:
  "\<not> halted p \<Longrightarrow> k < length (waiting p) \<Longrightarrow> waiting p ! k = AwaitClose \<Longrightarrow>
   step p (Settles k None) =
     (p\<lparr>waiting := splice1 k (waiting p), halted := True\<rparr>, [Awaited None, ProcessExit 0])"
  by (simp add: step_def resume_def)

subsection \<open>The invariant of the store\<close>

lemma store_inv_init: "store_inv init"
  by (simp add: store_inv_def init_def ids_def exact_limit_numeral)

lemma store_inv_handle: "store_inv st \<Longrightarrow> store_inv (fst (handle st ev))"
proof -
  assume inv: "store_inv st"
  define st' where "st' = fst (handle st ev)"
  from inv have n: "1 \<le> nextId st" "nextId st \<le> exact_limit"
    and a: "\<forall>k \<in> set (ids st). 1 \<le> k \<and> (k < nextId st \<or> (k = exact_limit \<and> nextId st = exact_limit))"
    and d: "distinct (filter (\<lambda>k. k < exact_limit) (ids st))"
    by (simp_all add: store_inv_def list_all_iff)
  from handle_ids [of st ev]
  consider
    (same) "nextId st' = nextId st" "ids st' = ids st"
  | (del) i where "nextId st' = nextId st" "ids st' = splice1 i (ids st)"
  | (new) "nextId st' = js_incr (nextId st)" "ids st' = ids st @ [nextId st]"
    unfolding st'_def by blast
  then have "store_inv st'"
  proof cases
    case same
    with inv show ?thesis by (simp add: store_inv_def)
  next
    case del
    from a splice1_set [of i "ids st"]
    have "\<forall>k \<in> set (splice1 i (ids st)).
            1 \<le> k \<and> (k < nextId st \<or> (k = exact_limit \<and> nextId st = exact_limit))"
      by blast
    with n d del show ?thesis
      by (simp add: store_inv_def list_all_iff splice1_distinct_filter)
  next
    case new
    show ?thesis
    proof (cases "nextId st < exact_limit")
      case True
      then have j: "js_incr (nextId st) = nextId st + 1"
        by (simp add: js_incr_cases)
      from a True have "\<forall>k \<in> set (ids st). 1 \<le> k \<and> k < nextId st"
        by auto
      with n d new True j show ?thesis
        by (auto simp: store_inv_def list_all_iff)
    next
      case False
      with n have e: "nextId st = exact_limit" by simp
      then have j: "js_incr (nextId st) = exact_limit"
        by (simp add: js_incr_cases)
      from n a d new e j show ?thesis
        by (auto simp: store_inv_def list_all_iff)
    qed
  qed
  then show ?thesis by (simp add: st'_def)
qed

lemma store_inv_run: "store_inv st \<Longrightarrow> store_inv (fst (run st evs))"
proof (induction evs arbitrary: st)
  case Nil
  then show ?case by simp
next
  case (Cons ev evs)
  from Cons.prems have "store_inv (fst (handle st ev))" by (rule store_inv_handle)
  then have "store_inv (fst (run (fst (handle st ev)) evs))" by (rule Cons.IH)
  then show ?case by (simp only: fst_run_Cons)
qed

lemma store_inv_reachable: "store_inv (fst (run init evs))"
  using store_inv_init by (rule store_inv_run)

lemma store_inv_ids:
  "store_inv st \<Longrightarrow> u \<in> set (users st) \<Longrightarrow>
   1 \<le> user_id u \<and> user_id u \<le> exact_limit \<and>
   (user_id u < nextId st \<or> user_id u = exact_limit)"
  by (auto simp: store_inv_def list_all_iff ids_def)

lemma out_of_range_no_match:
  assumes inv: "store_inv st"
    and r: "n = NaN \<or> n = PosInf \<or> n = NegInf \<or>
            (\<exists>q. n = Fin q \<and> (q < 1 \<or> of_nat exact_limit < q \<or>
                   (of_nat (nextId st) \<le> q \<and> q < of_nat exact_limit)))"
  shows "\<forall>u \<in> set (users st). \<not> id_is n u"
proof
  fix u assume u: "u \<in> set (users st)"
  from store_inv_ids [OF inv u]
  have b: "1 \<le> user_id u" "user_id u \<le> exact_limit" "user_id u < nextId st \<or> user_id u = exact_limit"
    by simp_all
  show "\<not> id_is n u"
  proof
    assume m: "id_is n u"
    then have n: "n = Fin (of_nat (user_id u))" by (simp add: id_is_def)
    with r have "(of_nat (user_id u) :: rat) < 1 \<or> (of_nat exact_limit :: rat) < of_nat (user_id u) \<or>
                 ((of_nat (nextId st) :: rat) \<le> of_nat (user_id u) \<and>
                  (of_nat (user_id u) :: rat) < of_nat exact_limit)"
      by auto
    then have "user_id u < 1 \<or> exact_limit < user_id u \<or>
               (nextId st \<le> user_id u \<and> user_id u < exact_limit)"
      by (metis of_nat_less_iff of_nat_le_iff of_nat_1)
    with b show False by auto
  qed
qed

lemma unique_below_limit:
  assumes inv: "store_inv st" and i: "i < length (users st)" and u: "u \<in> set (users st)"
    and e: "user_id (users st ! i) = user_id u" and k: "user_id u < exact_limit"
  shows "users st ! i = u"
proof -
  from u obtain j where j: "j < length (users st)" "users st ! j = u"
    by (auto simp: in_set_conv_nth)
  from inv have "distinct (filter (\<lambda>k. k < exact_limit) (map user_id (users st)))"
    by (simp add: store_inv_def ids_def)
  from distinct_filter_index [OF this, of i j] i j e k have "i = j" by simp
  with j show ?thesis by simp
qed

text \<open>An id below the counter that no stored record has stays so.\<close>

lemma absent_handle:
  assumes inv: "store_inv st" and k: "k < nextId st" "k \<notin> set (ids st)"
  shows "k < nextId (fst (handle st ev)) \<and> k \<notin> set (ids (fst (handle st ev)))"
proof -
  define st' where "st' = fst (handle st ev)"
  from inv have n: "nextId st \<le> exact_limit" by (simp add: store_inv_def)
  from handle_ids [of st ev]
  consider
    (same) "nextId st' = nextId st" "ids st' = ids st"
  | (del) i where "nextId st' = nextId st" "ids st' = splice1 i (ids st)"
  | (new) "nextId st' = js_incr (nextId st)" "ids st' = ids st @ [nextId st]"
    unfolding st'_def by blast
  then have "k < nextId st' \<and> k \<notin> set (ids st')"
  proof cases
    case same
    with k show ?thesis by simp
  next
    case del
    with k splice1_set [of i "ids st"] show ?thesis by auto
  next
    case new
    with k n show ?thesis by (auto simp: js_incr_cases)
  qed
  then show ?thesis by (simp add: st'_def)
qed

lemma absent_run:
  "store_inv st \<Longrightarrow> k < nextId st \<Longrightarrow> k \<notin> set (ids st) \<Longrightarrow>
   k \<notin> set (ids (fst (run st evs)))"
proof (induction evs arbitrary: st)
  case Nil
  then show ?case by simp
next
  case (Cons ev evs)
  from absent_handle [OF Cons.prems, of ev] store_inv_handle [OF Cons.prems(1), of ev]
  have "k \<notin> set (ids (fst (run (fst (handle st ev)) evs)))"
    using Cons.IH [of "fst (handle st ev)"] by blast
  then show ?case unfolding fst_run_Cons .
qed

lemma get_user_no_id:
  "parseInt seg = Fin (of_nat k) \<Longrightarrow> k \<notin> set (ids st) \<Longrightarrow>
   get_user st seg = (st, [Respond 404 (ErrorBody ''User not found'')])"
  by (rule get_user_absent) (auto simp: id_is_of_nat ids_def)

subsection \<open>The counter at its limit\<close>

text \<open>One round of create and delete on an empty store.\<close>

lemma round_on_empty:
  assumes v: "truthy (b_name b)" "truthy (b_email b)" and k: "k < exact_limit"
  shows "run \<lparr>users = [], nextId = k, nats = None\<rparr> [PostUsers b now pub, DeleteUser (decimal k)] =
           (\<lparr>users = [], nextId = Suc k, nats = None\<rparr>,
            [Respond 201 (UserBody (new_user k b now)), Respond 204 NoBody])"
proof -
  define st0 where "st0 = \<lparr>users = [], nextId = k, nats = None\<rparr>"
  define st1 where "st1 = \<lparr>users = [new_user k b now], nextId = Suc k, nats = None\<rparr>"
  from k have j: "js_incr k = Suc k" by (simp add: js_incr_cases)
  have 1: "handle st0 (PostUsers b now pub) = (st1, [Respond 201 (UserBody (new_user k b now))])"
    by (simp add: post_users_valid [OF v] st0_def st1_def j publish_created_def)
  from k have p: "parseInt (decimal k) = Fin (of_nat k)"
    by (simp add: parseInt_decimal)
  have "findIndex (id_is (parseInt (decimal k))) (users st1) = Some 0"
    by (simp add: p st1_def id_is_of_nat new_user_def)
  from delete_user_found [OF this]
  have 2: "delete_user st1 (decimal k) =
             (\<lparr>users = [], nextId = Suc k, nats = None\<rparr>, [Respond 204 NoBody])"
    by (simp add: st1_def splice1_def)
  show ?thesis
    unfolding run_two st0_def [symmetric] 1 by (simp add: 2)
qed

lemma run_churn:
  assumes v: "truthy (b_name b)" "truthy (b_email b)"
  shows "n < exact_limit \<Longrightarrow>
         fst (run init (churn (PostUsers b now pub) n)) = \<lparr>users = [], nextId = Suc n, nats = None\<rparr> \<and>
         created_ids (snd (run init (churn (PostUsers b now pub) n))) = [1 ..< Suc n]"
proof (induction n)
  case 0
  show ?case by (simp add: init_def created_ids_def map_filter_def)
next
  case (Suc n)
  then have n: "n < exact_limit" by simp
  define P where "P = PostUsers b now pub"
  from Suc.IH [OF n]
  have st: "fst (run init (churn P n)) = \<lparr>users = [], nextId = Suc n, nats = None\<rparr>"
    and ids: "created_ids (snd (run init (churn P n))) = [1 ..< Suc n]"
    by (simp_all add: P_def)
  note r = round_on_empty [OF v Suc.prems, of now pub, folded P_def]
  have 1: "fst (run init (churn P (Suc n))) = \<lparr>users = [], nextId = Suc (Suc n), nats = None\<rparr>"
    by (simp add: fst_run_append st r)
  have "created_ids (snd (run init (churn P (Suc n)))) = [1 ..< Suc n] @ [Suc n]"
    by (simp add: snd_run_append created_ids_append st r ids)
       (simp add: created_ids_def map_filter_def new_user_def)
  then have 2: "created_ids (snd (run init (churn P (Suc n)))) = [1 ..< Suc (Suc n)]"
    by simp
  from 1 2 show ?case unfolding P_def by (rule conjI)
qed

text \<open>
  The counter at \<open>exact_limit\<close> on an empty store: a create, the delete of its record
  and a second create.
\<close>

lemma at_limit:
  assumes v: "truthy (b_name b)" "truthy (b_email b)"
    and p: "parseInt seg = Fin (of_nat exact_limit)"
    and st: "st = \<lparr>users = [], nextId = exact_limit, nats = None\<rparr>"
  shows "run st [PostUsers b now pub] =
           (st\<lparr>users := [new_user exact_limit b now]\<rparr>,
            [Respond 201 (UserBody (new_user exact_limit b now))])"
    and "delete_user (st\<lparr>users := [new_user exact_limit b now]\<rparr>) seg = (st, [Respond 204 NoBody])"
    and "get_user (st\<lparr>users := [new_user exact_limit b now]\<rparr>) seg =
           (st\<lparr>users := [new_user exact_limit b now]\<rparr>,
            [Respond 200 (UserBody (new_user exact_limit b now))])"
proof -
  have j: "js_incr exact_limit = exact_limit" by (simp add: js_incr_cases)
  show "run st [PostUsers b now pub] =
           (st\<lparr>users := [new_user exact_limit b now]\<rparr>,
            [Respond 201 (UserBody (new_user exact_limit b now))])"
    by (simp add: run_single post_users_valid [OF v] st j publish_created_def)
  have "findIndex (id_is (parseInt seg)) (users (st\<lparr>users := [new_user exact_limit b now]\<rparr>)) = Some 0"
    by (simp add: p id_is_of_nat new_user_def)
  from delete_user_found [OF this]
  show "delete_user (st\<lparr>users := [new_user exact_limit b now]\<rparr>) seg = (st, [Respond 204 NoBody])"
    by (simp add: splice1_def st)
  show "get_user (st\<lparr>users := [new_user exact_limit b now]\<rparr>) seg =
           (st\<lparr>users := [new_user exact_limit b now]\<rparr>,
            [Respond 200 (UserBody (new_user exact_limit b now))])"
    by (simp add: get_user_def p id_is_of_nat new_user_def)
qed

lemma limit_reached:
  assumes v: "truthy (b_name b)" "truthy (b_email b)"
    and p: "parseInt seg = Fin (of_nat (Suc n))"
    and n: "Suc n = exact_limit"
  shows "created_ids (snd (run init (churn (PostUsers b now pub) n @
           [PostUsers b now pub, DeleteUser seg, PostUsers b now pub]))) =
           [1 ..< Suc n] @ [Suc n, Suc n]"
    and "snd (delete_user (fst (run init (churn (PostUsers b now pub) n @ [PostUsers b now pub]))) seg) =
           [Respond 204 NoBody]"
    and "snd (get_user (fst (run init (churn (PostUsers b now pub) n @
           [PostUsers b now pub, DeleteUser seg, PostUsers b now pub]))) seg) =
           [Respond 200 (UserBody (new_user (Suc n) b now))]"
proof -
  define P where "P = PostUsers b now pub"
  define st where "st = \<lparr>users = [], nextId = exact_limit, nats = None\<rparr>"
  define st1 where "st1 = st\<lparr>users := [new_user exact_limit b now]\<rparr>"
  from n have "n < exact_limit" by simp
  from run_churn [OF v this, of now pub]
  have c: "fst (run init (churn P n)) = st" "created_ids (snd (run init (churn P n))) = [1 ..< Suc n]"
    by (simp_all add: P_def st_def n)
  from p n have p': "parseInt seg = Fin (of_nat exact_limit)" by simp
  note a = at_limit(1) [OF v p' st_def, of now pub, folded P_def st1_def]
    at_limit(2) [OF v p' st_def, of now, folded st1_def]
    at_limit(3) [OF v p' st_def, of now, folded st1_def]
  have h1: "handle st P = (st1, [Respond 201 (UserBody (new_user exact_limit b now))])"
    using a(1) by (simp add: run_single)
  have h2: "handle st1 (DeleteUser seg) = (st, [Respond 204 NoBody])"
    using a(2) by simp
  have r: "run st [P, DeleteUser seg, P] =
      (st1, [Respond 201 (UserBody (new_user exact_limit b now)), Respond 204 NoBody,
             Respond 201 (UserBody (new_user exact_limit b now))])"
    by (simp add: run.simps(2) h1 h2 del: handle.simps)
  have "created_ids (snd (run st [P, DeleteUser seg, P])) = [exact_limit, exact_limit]"
    unfolding r by (simp add: created_ids_def map_filter_def new_user_def)
  then show "created_ids (snd (run init (churn (PostUsers b now pub) n @
           [PostUsers b now pub, DeleteUser seg, PostUsers b now pub]))) =
           [1 ..< Suc n] @ [Suc n, Suc n]"
    unfolding P_def [symmetric] snd_run_append created_ids_append c n by simp
  have "fst (run init (churn P n @ [P])) = st1"
    unfolding fst_run_append c a(1) by simp
  then show "snd (delete_user (fst (run init (churn (PostUsers b now pub) n @ [PostUsers b now pub]))) seg) =
           [Respond 204 NoBody]"
    unfolding P_def [symmetric] using a(2) by simp
  have "fst (run init (churn P n @ [P, DeleteUser seg, P])) = st1"
    unfolding fst_run_append c r by simp
  then show "snd (get_user (fst (run init (churn (PostUsers b now pub) n @
           [PostUsers b now pub, DeleteUser seg, PostUsers b now pub]))) seg) =
           [Respond 200 (UserBody (new_user (Suc n) b now))]"
    unfolding P_def [symmetric] n using a(3) by simp
qed

text \<open>Two creates with the counter at \<open>exact_limit\<close>: two records of one id.\<close>

lemma two_at_limit:
  assumes v: "truthy (b_name b)" "truthy (b_email b)" and n: "Suc n = exact_limit"
  shows "fst (run init (churn (PostUsers b now pub) n @
           [PostUsers b t1 (Resolved ()), PostUsers b t2 (Resolved ())])) =
         \<lparr>users = [new_user (Suc n) b t1, new_user (Suc n) b t2], nextId = Suc n, nats = None\<rparr>"
proof -
  from n have "n < exact_limit" by simp
  from run_churn [OF v this, of now pub]
  have c: "fst (run init (churn (PostUsers b now pub) n)) = \<lparr>users = [], nextId = Suc n, nats = None\<rparr>"
    by simp
  have j: "js_incr (Suc n) = Suc n" by (simp add: n js_incr_cases)
  show ?thesis
    unfolding fst_run_append c run_two
    by (simp add: post_users_valid [OF v] j publish_created_def)
qed

section \<open>The claims\<close>

subsection \<open>C1: the response and the publish\<close>

text \<open>
  C1 (as the code has it). On a valid create with the adapter connected, the handler
  calls publish and awaits it: by the time the await returns it has written no
  response, and the 201 response is the last thing it does, after the publish has
  settled and its outcome has been logged. In the event loop, the handler goes to wait
  having only called publish, and writes the response when it is resumed. With no
  adapter connected the 201 response is all the handler does.
\<close>

theorem response_written_after_publish_settles:
  "truthy (b_name b) \<and> truthy (b_email b) \<longrightarrow>
     (nats st \<noteq> None \<longrightarrow>
        before_await (snd (post_users st b now pub)) =
          [NatsPublish ''user.created'' (new_user (nextId st) b now)] \<and>
        responses (before_await (snd (post_users st b now pub))) = [] \<and>
        (\<exists>r l. snd (post_users st b now pub) =
           [NatsPublish ''user.created'' (new_user (nextId st) b now), Awaited r, l,
            Respond 201 (UserBody (new_user (nextId st) b now))] \<and> \<not> is_respond l) \<and>
        (vars p = st \<and> \<not> halted p \<longrightarrow>
           snd (step p (Create b now)) =
             [NatsPublish ''user.created'' (new_user (nextId st) b now)] \<and>
           waiting (fst (step p (Create b now))) =
             waiting p @ [AwaitPublish (new_user (nextId st) b now)]) \<and>
        (\<exists>l. resume st' (AwaitPublish (new_user (nextId st) b now)) r' =
           (st', [Awaited r', l, Respond 201 (UserBody (new_user (nextId st) b now))], False) \<and>
           \<not> is_respond l)) \<and>
     (nats st = None \<longrightarrow>
        snd (post_users st b now pub) = [Respond 201 (UserBody (new_user (nextId st) b now))])"
proof (intro impI conjI)
  assume v: "truthy (b_name b) \<and> truthy (b_email b)"
  then have v1: "truthy (b_name b)" and v2: "truthy (b_email b)" by simp_all
  note eq = post_users_valid [OF v1 v2]
  {
    assume "nats st = None"
    then show "snd (post_users st b now pub) = [Respond 201 (UserBody (new_user (nextId st) b now))]"
      by (simp add: eq publish_created_cases)
  }
  assume c: "nats st \<noteq> None"
  show "before_await (snd (post_users st b now pub)) =
          [NatsPublish ''user.created'' (new_user (nextId st) b now)]"
    using c by (cases pub) (simp_all add: eq publish_created_cases before_await_def)
  then show "responses (before_await (snd (post_users st b now pub))) = []"
    by (simp add: responses_def)
  show "\<exists>r l. snd (post_users st b now pub) =
           [NatsPublish ''user.created'' (new_user (nextId st) b now), Awaited r, l,
            Respond 201 (UserBody (new_user (nextId st) b now))] \<and> \<not> is_respond l"
    using c by (cases pub) (simp_all add: eq publish_created_cases)
  show "\<exists>l. resume st' (AwaitPublish (new_user (nextId st) b now)) r' =
           (st', [Awaited r', l, Respond 201 (UserBody (new_user (nextId st) b now))], False) \<and>
           \<not> is_respond l"
    by (rule resume_publish)
  {
    assume p: "vars p = st \<and> \<not> halted p"
    with c have "\<not> halted p" "nats (vars p) \<noteq> None" by simp_all
    from step_create_connected [OF this(1) v1 v2 this(2), of now] p
    show "snd (step p (Create b now)) =
             [NatsPublish ''user.created'' (new_user (nextId st) b now)]"
      and "waiting (fst (step p (Create b now))) =
             waiting p @ [AwaitPublish (new_user (nextId st) b now)]"
      by simp_all
  }
qed

theorem response_written_after_publish_settles_witness:
  "truthy (b_name john) \<and> truthy (b_email john) \<and> nats connected1 \<noteq> None \<and>
   vars (serving connected1) = connected1 \<and> \<not> halted (serving connected1) \<and>
   before_await (snd (post_users connected1 john (ascii ''t1'') (Resolved ()))) =
     [NatsPublish ''user.created'' (new_user 2 john (ascii ''t1''))] \<and>
   responses (before_await (snd (post_users connected1 john (ascii ''t1'') (Resolved ())))) = [] \<and>
   snd (step (serving connected1) (Create john (ascii ''t1''))) =
     [NatsPublish ''user.created'' (new_user 2 john (ascii ''t1''))]"
proof -
  have h: "truthy (b_name john) \<and> truthy (b_email john)"
    by (simp add: john_def ascii_def)
  have c: "nats connected1 \<noteq> None" "nextId connected1 = 2"
    by (simp_all add: connected1_def)
  have s: "vars (serving connected1) = connected1 \<and> \<not> halted (serving connected1)"
    by (simp add: serving_def)
  from response_written_after_publish_settles
         [where b = john and st = connected1 and now = "ascii ''t1''" and pub = "Resolved ()"
            and p = "serving connected1"] h c s
  have "before_await (snd (post_users connected1 john (ascii ''t1'') (Resolved ()))) =
     [NatsPublish ''user.created'' (new_user 2 john (ascii ''t1''))] \<and>
   responses (before_await (snd (post_users connected1 john (ascii ''t1'') (Resolved ())))) = [] \<and>
   snd (step (serving connected1) (Create john (ascii ''t1''))) =
     [NatsPublish ''user.created'' (new_user 2 john (ascii ''t1''))]"
    by (simp add: responses_def)
  with h c(1) s show ?thesis by (simp add: responses_def)
qed

text \<open>
  C1 as stated fails: with the adapter connected, a valid create has written no
  response when the publish settles; the response follows the await, and is written
  only by the step that resumes the handler.
\<close>

theorem response_not_before_publish_counterexample:
  "snd (post_users connected1 john (ascii ''t1'') (Resolved ())) =
     [NatsPublish ''user.created'' (new_user 2 john (ascii ''t1'')), Awaited None,
      ConsoleLog ''Published user.created event:'' [LNum 2],
      Respond 201 (UserBody (new_user 2 john (ascii ''t1'')))] \<and>
   responses (before_await (snd (post_users connected1 john (ascii ''t1'') (Resolved ())))) = [] \<and>
   snd (step (serving connected1) (Create john (ascii ''t1''))) =
     [NatsPublish ''user.created'' (new_user 2 john (ascii ''t1''))] \<and>
   snd (steps (serving connected1) [Create john (ascii ''t1''), Settles 0 None]) =
     [NatsPublish ''user.created'' (new_user 2 john (ascii ''t1'')), Awaited None,
      ConsoleLog ''Published user.created event:'' [LNum 2],
      Respond 201 (UserBody (new_user 2 john (ascii ''t1'')))]"
  by (simp add: post_users_def publish_created_def connected1_def john_def ascii_def
      before_await_def responses_def Let_def new_user_def step_def post_start_def serving_def
      resume_def splice1_def)

subsection \<open>C2: the ids handed out\<close>

text \<open>
  C2 (as the code has it). From the empty store, along any sequence of events, as long
  as no more than \<open>2^53\<close> creates have succeeded, the i-th successful create is given
  the id i: the ids handed out are 1, 2, 3, ... in this order, whatever updates and
  deletes come between, so they increase strictly and none is handed out twice.
\<close>

theorem ids_assigned_in_order:
  "length (created_ids (snd (run init evs))) \<le> exact_limit \<longrightarrow>
     created_ids (snd (run init evs)) = [1 ..< Suc (length (created_ids (snd (run init evs))))] \<and>
     sorted_wrt (<) (created_ids (snd (run init evs))) \<and>
     distinct (created_ids (snd (run init evs)))"
proof
  assume "length (created_ids (snd (run init evs))) \<le> exact_limit"
  then have "nextId init + length (created_ids (snd (run init evs))) \<le> exact_limit + 1"
    by (simp add: init_def)
  from created_ids_run [OF this]
  have eq: "created_ids (snd (run init evs)) = [1 ..< Suc (length (created_ids (snd (run init evs))))]"
    by (simp add: init_def)
  have "sorted_wrt (<) [1 ..< Suc (length (created_ids (snd (run init evs))))]"
    "distinct [1 ..< Suc (length (created_ids (snd (run init evs))))]"
    by (simp_all del: upt_Suc)
  with eq show "created_ids (snd (run init evs)) = [1 ..< Suc (length (created_ids (snd (run init evs))))] \<and>
     sorted_wrt (<) (created_ids (snd (run init evs))) \<and>
     distinct (created_ids (snd (run init evs)))"
    by metis
qed

theorem ids_assigned_in_order_witness:
  "length (created_ids (snd (run init
      [PostUsers john (ascii ''t0'') (Resolved ()), DeleteUser (ascii ''1''),
       PostUsers john (ascii ''t1'') (Resolved ())]))) \<le> exact_limit \<and>
   created_ids (snd (run init
      [PostUsers john (ascii ''t0'') (Resolved ()), DeleteUser (ascii ''1''),
       PostUsers john (ascii ''t1'') (Resolved ())])) = [1, 2]"
proof -
  define evs where "evs = [PostUsers john (ascii ''t0'') (Resolved ()), DeleteUser (ascii ''1''),
       PostUsers john (ascii ''t1'') (Resolved ())]"
  have len: "length (created_ids (snd (run init evs))) = 2"
    by (simp add: evs_def run.simps(2) init_def post_users_def delete_user_def publish_created_def
        john_def new_user_def id_is_def splice1_def Let_def created_ids_def map_filter_def
        js_incr_def eval_parse)
  then have le: "length (created_ids (snd (run init evs))) \<le> exact_limit"
    by (simp add: exact_limit_numeral)
  with ids_assigned_in_order [of evs]
  have "created_ids (snd (run init evs)) = [1 ..< Suc (length (created_ids (snd (run init evs))))]"
    by blast
  then have "created_ids (snd (run init evs)) = [1, 2]"
    unfolding len by (simp add: upt_conv_Cons)
  with le show ?thesis unfolding evs_def by blast
qed

text \<open>
  C2 as stated fails: \<open>2^53 - 1\<close> rounds of create and delete, then a create, the
  delete of its record and one more create, the store never holding more than one
  record. The creates number \<open>2^53\<close> and \<open>2^53 + 1\<close> are both given the id \<open>2^53\<close>.
\<close>

theorem ids_repeat_at_limit_counterexample:
  "created_ids (snd (run init
     (churn (PostUsers john (ascii ''t0'') (Resolved ())) 9007199254740991 @
      [PostUsers john (ascii ''t0'') (Resolved ()), DeleteUser (ascii ''9007199254740992''),
       PostUsers john (ascii ''t0'') (Resolved ())]))) ! 9007199254740991 = 9007199254740992 \<and>
   created_ids (snd (run init
     (churn (PostUsers john (ascii ''t0'') (Resolved ())) 9007199254740991 @
      [PostUsers john (ascii ''t0'') (Resolved ()), DeleteUser (ascii ''9007199254740992''),
       PostUsers john (ascii ''t0'') (Resolved ())]))) ! 9007199254740992 = 9007199254740992"
proof -
  define n :: nat where "n = 9007199254740991"
  have len: "length [1 ..< Suc n] = n" by simp
  have 1: "([1 ..< Suc n] @ [Suc n, Suc n]) ! n = Suc n"
    using nth_append_length [of "[1 ..< Suc n]" "Suc n" "[Suc n]"] unfolding len .
  have 2: "([1 ..< Suc n] @ [Suc n, Suc n]) ! Suc n = Suc n"
    using nth_append_length_plus [of "[1 ..< Suc n]" "[Suc n, Suc n]" 1] unfolding len by simp
  have s: "Suc n = 9007199254740992" by (simp add: n_def)
  note l = limit_reached(1) [OF john_valid limit_numerals(2,1), of "ascii ''t0''" "Resolved ()",
      folded n_def]
  from 1 2 show ?thesis
    unfolding l n_def [symmetric] s [symmetric] by (rule conjI)
qed

subsection \<open>C3: shutdown\<close>

text \<open>
  C3 (as the code has it). The \<open>SIGTERM\<close> handler logs, then, when the adapter is
  connected, calls its close and awaits it, and then exits with code 0 (a close that
  rejects leaves an unhandled rejection in place of the exit); with no adapter it exits
  with code 0 at once. It never closes the listener and writes no response, and what it
  does depends on the adapter handle alone, not on the store. In the event loop, the
  handlers that wait when the signal arrives are left waiting, the process has exited
  once the close has settled, and after the exit no input has any effect.
\<close>

theorem sigterm_closes_adapter_then_exits:
  "ServerClose \<notin> set (sigterm st fin) \<and>
   responses (sigterm st fin) = [] \<and>
   sigterm (st\<lparr>users := us, nextId := n\<rparr>) fin = sigterm st fin \<and>
   (nats st = None \<longrightarrow>
      sigterm st fin =
        [ConsoleLog ''SIGTERM received, shutting down gracefully'' [], ProcessExit 0]) \<and>
   (nats st \<noteq> None \<longrightarrow>
      sigterm st (Resolved ()) =
        [ConsoleLog ''SIGTERM received, shutting down gracefully'' [], NatsClose,
         Awaited None, ProcessExit 0] \<and>
      sigterm st (Rejected e) =
        [ConsoleLog ''SIGTERM received, shutting down gracefully'' [], NatsClose,
         Awaited (Some e), UnhandledRejection e]) \<and>
   (\<not> halted p \<and> nats (vars p) = None \<longrightarrow>
      step p Sigterm =
        (p\<lparr>halted := True\<rparr>,
         [ConsoleLog ''SIGTERM received, shutting down gracefully'' [], ProcessExit 0])) \<and>
   (\<not> halted p \<and> nats (vars p) \<noteq> None \<longrightarrow>
      step p Sigterm =
        (p\<lparr>waiting := waiting p @ [AwaitClose]\<rparr>,
         [ConsoleLog ''SIGTERM received, shutting down gracefully'' [], NatsClose])) \<and>
   (\<not> halted p \<and> k < length (waiting p) \<and> waiting p ! k = AwaitClose \<longrightarrow>
      step p (Settles k None) =
        (p\<lparr>waiting := splice1 k (waiting p), halted := True\<rparr>, [Awaited None, ProcessExit 0])) \<and>
   (halted p \<longrightarrow> steps p ins = (p, []))"
proof (intro conjI impI)
  show "ServerClose \<notin> set (sigterm st fin)"
    by (cases "nats st"; cases fin) (simp_all add: sigterm_def)
  show "responses (sigterm st fin) = []"
    by (cases "nats st"; cases fin) (simp_all add: sigterm_def responses_def)
  show "sigterm (st\<lparr>users := us, nextId := n\<rparr>) fin = sigterm st fin"
    by (simp add: sigterm_def)
  show "sigterm st fin =
        [ConsoleLog ''SIGTERM received, shutting down gracefully'' [], ProcessExit 0]"
    if "nats st = None"
    using that by (simp add: sigterm_def)
  show "sigterm st (Resolved ()) =
        [ConsoleLog ''SIGTERM received, shutting down gracefully'' [], NatsClose,
         Awaited None, ProcessExit 0]"
    if "nats st \<noteq> None"
    using that by (auto simp: sigterm_def)
  show "sigterm st (Rejected e) =
        [ConsoleLog ''SIGTERM received, shutting down gracefully'' [], NatsClose,
         Awaited (Some e), UnhandledRejection e]"
    if "nats st \<noteq> None"
    using that by (auto simp: sigterm_def)
  show "step p Sigterm =
        (p\<lparr>halted := True\<rparr>,
         [ConsoleLog ''SIGTERM received, shutting down gracefully'' [], ProcessExit 0])"
    if "\<not> halted p \<and> nats (vars p) = None"
    using that step_sigterm(1) [of p] by blast
  show "step p Sigterm =
        (p\<lparr>waiting := waiting p @ [AwaitClose]\<rparr>,
         [ConsoleLog ''SIGTERM received, shutting down gracefully'' [], NatsClose])"
    if "\<not> halted p \<and> nats (vars p) \<noteq> None"
    using that step_sigterm(2) [of p] by blast
  show "step p (Settles k None) =
        (p\<lparr>waiting := splice1 k (waiting p), halted := True\<rparr>, [Awaited None, ProcessExit 0])"
    if "\<not> halted p \<and> k < length (waiting p) \<and> waiting p ! k = AwaitClose"
    using that step_close_settles [of p k] by blast
  show "steps p ins = (p, [])" if "halted p"
    using that by (rule steps_halted)
qed

theorem sigterm_closes_adapter_then_exits_witness:
  "nats connected1 \<noteq> None \<and> nats store1 = None \<and>
   \<not> halted (serving store1) \<and> nats (vars (serving store1)) = None \<and>
   sigterm connected1 (Resolved ()) =
     [ConsoleLog ''SIGTERM received, shutting down gracefully'' [], NatsClose,
      Awaited None, ProcessExit 0] \<and>
   sigterm store1 (Resolved ()) =
     [ConsoleLog ''SIGTERM received, shutting down gracefully'' [], ProcessExit 0] \<and>
   step (serving store1) Sigterm =
     ((serving store1)\<lparr>halted := True\<rparr>,
      [ConsoleLog ''SIGTERM received, shutting down gracefully'' [], ProcessExit 0]) \<and>
   halted ((serving store1)\<lparr>halted := True\<rparr>) \<and>
   steps ((serving store1)\<lparr>halted := True\<rparr>) [Whole GetUsers] = ((serving store1)\<lparr>halted := True\<rparr>, [])"
proof -
  have c: "nats connected1 \<noteq> None" "nats store1 = None"
    by (simp_all add: connected1_def store1_def)
  have s: "\<not> halted (serving store1) \<and> nats (vars (serving store1)) = None"
    by (simp add: serving_def store1_def)
  have h: "halted ((serving store1)\<lparr>halted := True\<rparr>)" by simp
  note t1 = sigterm_closes_adapter_then_exits [where st = connected1 and fin = "Resolved ()"]
  note t2 = sigterm_closes_adapter_then_exits
              [where st = store1 and fin = "Resolved ()" and p = "serving store1"]
  note t3 = sigterm_closes_adapter_then_exits
              [where p = "(serving store1)\<lparr>halted := True\<rparr>" and ins = "[Whole GetUsers]"]
  from t1 c(1)
  have 1: "sigterm connected1 (Resolved ()) =
     [ConsoleLog ''SIGTERM received, shutting down gracefully'' [], NatsClose,
      Awaited None, ProcessExit 0]"
    by blast
  from t2 c(2)
  have 2: "sigterm store1 (Resolved ()) =
     [ConsoleLog ''SIGTERM received, shutting down gracefully'' [], ProcessExit 0]"
    by blast
  from t2 s
  have 3: "step (serving store1) Sigterm =
     ((serving store1)\<lparr>halted := True\<rparr>,
      [ConsoleLog ''SIGTERM received, shutting down gracefully'' [], ProcessExit 0])"
    by blast
  from t3 h
  have 4: "steps ((serving store1)\<lparr>halted := True\<rparr>) [Whole GetUsers] =
             ((serving store1)\<lparr>halted := True\<rparr>, [])"
    by blast
  from c s 1 2 3 h 4 show ?thesis by (intro conjI) blast+
qed

text \<open>
  C3 as stated fails: with the adapter connected, the handler's actions are the log
  line, the close of the adapter and the exit; closing the listener is not among them.
  And a create that awaits its publish when the signal arrives gets no response when
  the close settles first: the process exits, and the publish settling later finds no
  process.
\<close>

theorem sigterm_never_closes_listener_counterexample:
  "sigterm connected1 (Resolved ()) =
     [ConsoleLog ''SIGTERM received, shutting down gracefully'' [], NatsClose,
      Awaited None, ProcessExit 0] \<and>
   ServerClose \<notin> set (sigterm connected1 (Resolved ())) \<and>
   snd (steps (serving connected1)
          [Create john (ascii ''t1''), Sigterm, Settles 1 None, Settles 0 None]) =
     [NatsPublish ''user.created'' (new_user 2 john (ascii ''t1'')),
      ConsoleLog ''SIGTERM received, shutting down gracefully'' [], NatsClose,
      Awaited None, ProcessExit 0] \<and>
   responses (snd (steps (serving connected1)
          [Create john (ascii ''t1''), Sigterm, Settles 1 None, Settles 0 None])) = []"
  by (simp add: sigterm_def connected1_def step_def post_start_def sigterm_start_def resume_def
      serving_def john_def ascii_def Let_def splice1_def responses_def new_user_def)

subsection \<open>C4: validation of a create\<close>

text \<open>
  C4 (as the code has it). The create handler answers 400 with
  \<open>{error: "Name and email are required"}\<close>, and leaves the store as it is, exactly when
  \<open>name\<close> or \<open>email\<close> is falsy: absent, \<open>null\<close>, \<open>false\<close>, \<open>0\<close>, \<open>NaN\<close> or the empty
  string. Otherwise it builds the record with the next id, the given name and email and
  the time stamp, appends it to the store, advances the counter and answers 201 with
  the record.
\<close>

theorem post_users_rejects_falsy:
  "(\<not> truthy v \<longleftrightarrow> v \<in> {Undefined, Null, Bool False, Num NaN, Num (Fin 0), Str []}) \<and>
   (snd (post_users st b now pub) = [Respond 400 (ErrorBody ''Name and email are required'')]
      \<longleftrightarrow> \<not> truthy (b_name b) \<or> \<not> truthy (b_email b)) \<and>
   (\<not> truthy (b_name b) \<or> \<not> truthy (b_email b) \<longrightarrow> fst (post_users st b now pub) = st) \<and>
   (truthy (b_name b) \<and> truthy (b_email b) \<longrightarrow>
      fst (post_users st b now pub) =
        st\<lparr>users := users st @ [new_user (nextId st) b now], nextId := js_incr (nextId st)\<rparr> \<and>
      responses (snd (post_users st b now pub)) =
        [Respond 201 (UserBody (new_user (nextId st) b now))] \<and>
      user_id (new_user (nextId st) b now) = nextId st \<and>
      name (new_user (nextId st) b now) = b_name b \<and>
      email (new_user (nextId st) b now) = b_email b \<and>
      createdAt (new_user (nextId st) b now) = now)"
proof (intro conjI impI)
  show "\<not> truthy v \<longleftrightarrow> v \<in> {Undefined, Null, Bool False, Num NaN, Num (Fin 0), Str []}"
    by (rule falsy_values)
  show "snd (post_users st b now pub) = [Respond 400 (ErrorBody ''Name and email are required'')]
      \<longleftrightarrow> \<not> truthy (b_name b) \<or> \<not> truthy (b_email b)"
  proof (cases "truthy (b_name b) \<and> truthy (b_email b)")
    case True
    then show ?thesis
      by (cases "nats st"; cases pub) (simp_all add: post_users_valid publish_created_def)
  next
    case False
    then show ?thesis using post_users_invalid [of b st now pub] by auto
  qed
  show "fst (post_users st b now pub) = st" if "\<not> truthy (b_name b) \<or> \<not> truthy (b_email b)"
    using post_users_invalid [OF that] by simp
next
  assume v: "truthy (b_name b) \<and> truthy (b_email b)"
  then have eq: "post_users st b now pub =
     (st\<lparr>users := users st @ [new_user (nextId st) b now], nextId := js_incr (nextId st)\<rparr>,
      publish_created st (new_user (nextId st) b now) pub @
        [Respond 201 (UserBody (new_user (nextId st) b now))])"
    by (simp add: post_users_valid)
  show "fst (post_users st b now pub) =
        st\<lparr>users := users st @ [new_user (nextId st) b now], nextId := js_incr (nextId st)\<rparr>"
    by (simp add: eq)
  show "responses (snd (post_users st b now pub)) =
        [Respond 201 (UserBody (new_user (nextId st) b now))]"
    using responses_publish_created [of st "new_user (nextId st) b now" pub]
    by (simp add: eq responses_def)
  show "user_id (new_user (nextId st) b now) = nextId st"
    "name (new_user (nextId st) b now) = b_name b"
    "email (new_user (nextId st) b now) = b_email b"
    "createdAt (new_user (nextId st) b now) = now"
    by (simp_all add: new_user_def)
qed

theorem post_users_rejects_falsy_witness:
  "truthy (b_name john) \<and> truthy (b_email john) \<and>
   fst (post_users init john (ascii ''t0'') (Resolved ())) =
     \<lparr>users = [new_user 1 john (ascii ''t0'')], nextId = 2, nats = None\<rparr> \<and>
   responses (snd (post_users init john (ascii ''t0'') (Resolved ()))) =
     [Respond 201 (UserBody (new_user 1 john (ascii ''t0'')))] \<and>
   \<not> truthy (Bool False) \<and>
   snd (post_users init \<lparr>b_name = Bool False, b_email = Str (ascii ''a@b.c'')\<rparr> (ascii ''t0'') (Resolved ())) =
     [Respond 400 (ErrorBody ''Name and email are required'')]"
  using post_users_rejects_falsy [of "Bool False" init john "ascii ''t0''" "Resolved ()"]
    post_users_rejects_falsy [of "Bool False" init "\<lparr>b_name = Bool False, b_email = Str (ascii ''a@b.c'')\<rparr>"
       "ascii ''t0''" "Resolved ()"]
  by (simp add: john_def init_def ascii_def js_incr_def round_nat_def bit_length.simps)

text \<open>
  C4 as stated fails: a body whose \<open>name\<close> is the number 0 has a name that is neither
  absent nor empty, and is refused with 400.
\<close>

theorem post_users_empty_or_absent_counterexample:
  "\<not> spec_empty_or_absent (Num (Fin 0)) \<and>
   \<not> spec_empty_or_absent (Str (ascii ''a@b.c'')) \<and>
   post_users init \<lparr>b_name = Num (Fin 0), b_email = Str (ascii ''a@b.c'')\<rparr> (ascii ''t0'') (Resolved ()) =
     (init, [Respond 400 (ErrorBody ''Name and email are required'')])"
  by (simp add: spec_empty_or_absent_def post_users_def ascii_def)

subsection \<open>C5: what an update changes\<close>

text \<open>
  C5 (as the code has it). An update addressed to an id that a stored record has
  answers 200 with the updated record and replaces the first stored record with that id
  in its place: the id and \<open>createdAt\<close> stay, \<open>name\<close> and \<open>email\<close> become the body's values
  where the body gives a truthy one and stay as they were otherwise (so an absent field
  keeps its value), and \<open>updatedAt\<close> becomes the time stamp; the other records, the
  counter and the adapter handle are untouched. That first record is the addressed
  record whenever the stored ids are distinct, and in every state reached from the empty
  store for an id below \<open>2^53\<close>. When no stored record has the id, the answer is 404 and
  the state is unchanged.
\<close>

theorem put_user_frame:
  "(u \<in> set (users st) \<and> id_is (parseInt seg) u \<longrightarrow>
      (\<exists>i < length (users st). \<exists>new.
         user_id (users st ! i) = user_id u \<and>
         (\<forall>j < i. \<not> id_is (parseInt seg) (users st ! j)) \<and>
         (distinct (map user_id (users st)) \<longrightarrow> users st ! i = u) \<and>
         (st = fst (run init evs) \<and> user_id u < exact_limit \<longrightarrow> users st ! i = u) \<and>
         put_user st seg b now =
           (st\<lparr>users := (users st)[i := new]\<rparr>, [Respond 200 (UserBody new)]) \<and>
         user_id new = user_id (users st ! i) \<and>
         createdAt new = createdAt (users st ! i) \<and>
         name new = (if truthy (b_name b) then b_name b else name (users st ! i)) \<and>
         email new = (if truthy (b_email b) then b_email b else email (users st ! i)) \<and>
         (b_name b = Undefined \<longrightarrow> name new = name (users st ! i)) \<and>
         (b_email b = Undefined \<longrightarrow> email new = email (users st ! i)) \<and>
         updatedAt new = Some now)) \<and>
   ((\<forall>v \<in> set (users st). \<not> id_is (parseInt seg) v) \<longrightarrow>
      put_user st seg b now = (st, [Respond 404 (ErrorBody ''User not found'')]))"
proof (intro conjI impI)
  assume "\<forall>v \<in> set (users st). \<not> id_is (parseInt seg) v"
  then show "put_user st seg b now = (st, [Respond 404 (ErrorBody ''User not found'')])"
    by (rule put_user_absent)
next
  assume u: "u \<in> set (users st) \<and> id_is (parseInt seg) u"
  then have "\<exists>x \<in> set (users st). id_is (parseInt seg) x" by blast
  from findIndex_ex [OF this]
  obtain i where i: "findIndex (id_is (parseInt seg)) (users st) = Some i" ..
  define old where "old = users st ! i"
  define new where "new = old\<lparr>name := js_or (b_name b) (name old),
                    email := js_or (b_email b) (email old), updatedAt := Some now\<rparr>"
  from findIndex_Some [OF i] have 1: "i < length (users st)" and m: "id_is (parseInt seg) (users st ! i)"
    and f: "\<forall>j < i. \<not> id_is (parseInt seg) (users st ! j)"
    by auto
  from u have "id_is (parseInt seg) u" ..
  with m have 2: "user_id (users st ! i) = user_id u"
    by (rule id_is_same_id)
  from u have mem: "u \<in> set (users st)" ..
  with 1 2 have 3: "distinct (map user_id (users st)) \<longrightarrow> users st ! i = u"
    using distinct_ids_same [of "users st" i u] by simp
  have 9: "st = fst (run init evs) \<and> user_id u < exact_limit \<longrightarrow> users st ! i = u"
  proof
    assume r: "st = fst (run init evs) \<and> user_id u < exact_limit"
    then have "st = fst (run init evs)" ..
    then have "store_inv st" by (simp only: store_inv_reachable)
    from unique_below_limit [OF this 1 mem 2] r show "users st ! i = u" by blast
  qed
  have 4: "put_user st seg b now =
      (st\<lparr>users := (users st)[i := new]\<rparr>, [Respond 200 (UserBody new)])"
    unfolding new_def old_def by (rule put_user_found [OF i])
  have 5: "user_id new = user_id (users st ! i)" "createdAt new = createdAt (users st ! i)"
    by (simp_all add: new_def old_def)
  have 6: "name new = (if truthy (b_name b) then b_name b else name (users st ! i))"
    "email new = (if truthy (b_email b) then b_email b else email (users st ! i))"
    by (simp_all add: new_def old_def js_or_def)
  have 7: "b_name b = Undefined \<longrightarrow> name new = name (users st ! i)"
    "b_email b = Undefined \<longrightarrow> email new = email (users st ! i)"
    by (simp_all add: new_def old_def js_or_retains)
  have 8: "updatedAt new = Some now" by (simp add: new_def)
  from 1 2 f 3 9 4 5 6 7 8
  show "\<exists>i < length (users st). \<exists>new.
         user_id (users st ! i) = user_id u \<and>
         (\<forall>j < i. \<not> id_is (parseInt seg) (users st ! j)) \<and>
         (distinct (map user_id (users st)) \<longrightarrow> users st ! i = u) \<and>
         (st = fst (run init evs) \<and> user_id u < exact_limit \<longrightarrow> users st ! i = u) \<and>
         put_user st seg b now =
           (st\<lparr>users := (users st)[i := new]\<rparr>, [Respond 200 (UserBody new)]) \<and>
         user_id new = user_id (users st ! i) \<and>
         createdAt new = createdAt (users st ! i) \<and>
         name new = (if truthy (b_name b) then b_name b else name (users st ! i)) \<and>
         email new = (if truthy (b_email b) then b_email b else email (users st ! i)) \<and>
         (b_name b = Undefined \<longrightarrow> name new = name (users st ! i)) \<and>
         (b_email b = Undefined \<longrightarrow> email new = email (users st ! i)) \<and>
         updatedAt new = Some now"
    by (intro exI [of _ i] exI [of _ new] conjI)
qed

theorem put_user_frame_witness:
  "ann \<in> set (users store1) \<and> id_is (parseInt (ascii ''1'')) ann \<and>
   distinct (map user_id (users store1)) \<and>
   put_user store1 (ascii ''1'') \<lparr>b_name = Str (ascii ''New''), b_email = Undefined\<rparr> (ascii ''t1'') =
     (store1\<lparr>users := [ann\<lparr>name := Str (ascii ''New''), updatedAt := Some (ascii ''t1'')\<rparr>]\<rparr>,
      [Respond 200 (UserBody (ann\<lparr>name := Str (ascii ''New''), updatedAt := Some (ascii ''t1'')\<rparr>))]) \<and>
   put_user store1 (ascii ''7'') \<lparr>b_name = Str (ascii ''New''), b_email = Undefined\<rparr> (ascii ''t1'') =
     (store1, [Respond 404 (ErrorBody ''User not found'')])"
proof -
  have w: "ann \<in> set (users store1) \<and> id_is (parseInt (ascii ''1'')) ann \<and>
   distinct (map user_id (users store1)) \<and>
   put_user store1 (ascii ''1'') \<lparr>b_name = Str (ascii ''New''), b_email = Undefined\<rparr> (ascii ''t1'') =
     (store1\<lparr>users := [ann\<lparr>name := Str (ascii ''New''), updatedAt := Some (ascii ''t1'')\<rparr>]\<rparr>,
      [Respond 200 (UserBody (ann\<lparr>name := Str (ascii ''New''), updatedAt := Some (ascii ''t1'')\<rparr>))])"
    by (simp add: put_user_def store1_def ann_def id_is_def js_or_def eval_parse Let_def)
  have "\<forall>v \<in> set (users store1). \<not> id_is (parseInt (ascii ''7'')) v"
    by (simp add: store1_def ann_def id_is_def eval_parse)
  with put_user_frame [where u = ann and st = store1 and seg = "ascii ''7''" and now = "ascii ''t1''"
      and b = "\<lparr>b_name = Str (ascii ''New''), b_email = Undefined\<rparr>"]
  have "put_user store1 (ascii ''7'') \<lparr>b_name = Str (ascii ''New''), b_email = Undefined\<rparr> (ascii ''t1'') =
     (store1, [Respond 404 (ErrorBody ''User not found'')])"
    by blast
  with w show ?thesis by simp
qed

text \<open>
  C5 as stated fails: after \<open>2^53 - 1\<close> rounds of create and delete, two creates are
  both given the id \<open>2^53\<close>. An update on that id changes the first of the two stored
  records; the second, a stored record addressed by its id, is left as it was, without
  \<open>updatedAt\<close>.
\<close>

theorem put_user_duplicate_id_counterexample:
  "fst (run init (churn (PostUsers john (ascii ''t0'') (Resolved ())) 9007199254740991 @
         [PostUsers john (ascii ''t1'') (Resolved ()), PostUsers john (ascii ''t2'') (Resolved ())])) =
     \<lparr>users = [new_user 9007199254740992 john (ascii ''t1''),
               new_user 9007199254740992 john (ascii ''t2'')],
        nextId = 9007199254740992, nats = None\<rparr> \<and>
   put_user
     \<lparr>users = [new_user 9007199254740992 john (ascii ''t1''),
               new_user 9007199254740992 john (ascii ''t2'')],
        nextId = 9007199254740992, nats = None\<rparr>
     (ascii ''9007199254740992'') \<lparr>b_name = Str (ascii ''New''), b_email = Undefined\<rparr> (ascii ''t3'') =
     (\<lparr>users = [(new_user 9007199254740992 john (ascii ''t1''))
                  \<lparr>name := Str (ascii ''New''), updatedAt := Some (ascii ''t3'')\<rparr>,
               new_user 9007199254740992 john (ascii ''t2'')],
        nextId = 9007199254740992, nats = None\<rparr>,
      [Respond 200 (UserBody ((new_user 9007199254740992 john (ascii ''t1''))
                  \<lparr>name := Str (ascii ''New''), updatedAt := Some (ascii ''t3'')\<rparr>))]) \<and>
   updatedAt (new_user 9007199254740992 john (ascii ''t2'')) = None"
proof -
  have s: "Suc 9007199254740991 = (9007199254740992 :: nat)" by simp
  note l = two_at_limit [OF john_valid limit_numerals(1), of "ascii ''t0''" "Resolved ()"
             "ascii ''t1''" "ascii ''t2''", unfolded s]
  have p: "put_user
     \<lparr>users = [new_user 9007199254740992 john (ascii ''t1''),
               new_user 9007199254740992 john (ascii ''t2'')],
        nextId = 9007199254740992, nats = None\<rparr>
     (ascii ''9007199254740992'') \<lparr>b_name = Str (ascii ''New''), b_email = Undefined\<rparr> (ascii ''t3'') =
     (\<lparr>users = [(new_user 9007199254740992 john (ascii ''t1''))
                  \<lparr>name := Str (ascii ''New''), updatedAt := Some (ascii ''t3'')\<rparr>,
               new_user 9007199254740992 john (ascii ''t2'')],
        nextId = 9007199254740992, nats = None\<rparr>,
      [Respond 200 (UserBody ((new_user 9007199254740992 john (ascii ''t1''))
                  \<lparr>name := Str (ascii ''New''), updatedAt := Some (ascii ''t3'')\<rparr>))])"
    by (simp add: put_user_def id_is_def new_user_def js_or_def Let_def john_def eval_parse)
  have u: "updatedAt (new_user 9007199254740992 john (ascii ''t2'')) = None"
    by (simp add: new_user_def)
  from l p u show ?thesis by (intro conjI)
qed

subsection \<open>C6: segments that address no record\<close>

text \<open>
  C6 (as the code has it). A segment in which no decimal digit follows the optional
  white space and sign is read as \<open>NaN\<close>. For every segment read as \<open>NaN\<close>, and for
  every segment read as a number that is the id of no stored record, \<open>GET\<close>, \<open>PUT\<close> and
  \<open>DELETE\<close> answer 404 with \<open>{error: "User not found"}\<close> and leave the state unchanged;
  in a state reached from the empty store these are, among others, the infinite numbers,
  the numbers below 1 or above \<open>2^53\<close>, and the numbers from the counter upwards and
  below \<open>2^53\<close>. When the number read is the id of a stored record, \<open>GET\<close> answers 200
  with the first such record. The decimal digits of a number from 1 to \<open>2^53\<close>, followed
  by anything that does not begin with a decimal digit, are read as that number.
\<close>

theorem unreadable_or_unassigned_id_is_not_found:
  "(\<not> has_leading_digit seg \<longrightarrow> parseInt seg = NaN) \<and>
   (parseInt seg = NaN \<or>
    (\<forall>u \<in> set (users st). \<not> id_is (parseInt seg) u) \<or>
    st = fst (run init evs) \<and>
      (parseInt seg = PosInf \<or> parseInt seg = NegInf \<or>
       (\<exists>q. parseInt seg = Fin q \<and>
            (q < 1 \<or> of_nat exact_limit < q \<or>
             (of_nat (nextId st) \<le> q \<and> q < of_nat exact_limit)))) \<longrightarrow>
      get_user st seg = (st, [Respond 404 (ErrorBody ''User not found'')]) \<and>
      put_user st seg b now = (st, [Respond 404 (ErrorBody ''User not found'')]) \<and>
      delete_user st seg = (st, [Respond 404 (ErrorBody ''User not found'')])) \<and>
   ((\<exists>u \<in> set (users st). id_is (parseInt seg) u) \<longrightarrow>
      (\<exists>i < length (users st).
         id_is (parseInt seg) (users st ! i) \<and>
         (\<forall>j < i. \<not> id_is (parseInt seg) (users st ! j)) \<and>
         get_user st seg = (st, [Respond 200 (UserBody (users st ! i))]))) \<and>
   (1 \<le> n \<and> n \<le> exact_limit \<and> takeWhile (is_digit 10) rest = [] \<longrightarrow>
      parseInt (decimal n @ rest) = Fin (of_nat n) \<and>
      (id_is (parseInt (decimal n @ rest)) u' \<longleftrightarrow> user_id u' = n))"
proof (intro conjI impI)
  assume "\<not> has_leading_digit seg"
  then show "parseInt seg = NaN" by (rule parseInt_no_digit)
next
  assume a: "parseInt seg = NaN \<or>
    (\<forall>u \<in> set (users st). \<not> id_is (parseInt seg) u) \<or>
    st = fst (run init evs) \<and>
      (parseInt seg = PosInf \<or> parseInt seg = NegInf \<or>
       (\<exists>q. parseInt seg = Fin q \<and>
            (q < 1 \<or> of_nat exact_limit < q \<or>
             (of_nat (nextId st) \<le> q \<and> q < of_nat exact_limit))))"
  have none: "\<forall>u \<in> set (users st). \<not> id_is (parseInt seg) u"
  proof (cases "parseInt seg = NaN \<or> (\<forall>u \<in> set (users st). \<not> id_is (parseInt seg) u)")
    case True
    then show ?thesis by (auto simp: id_is_NaN)
  next
    case False
    with a have st: "st = fst (run init evs)"
      and r: "parseInt seg = PosInf \<or> parseInt seg = NegInf \<or>
       (\<exists>q. parseInt seg = Fin q \<and>
            (q < 1 \<or> of_nat exact_limit < q \<or>
             (of_nat (nextId st) \<le> q \<and> q < of_nat exact_limit)))"
      by blast+
    from st have "store_inv st" by (simp add: store_inv_reachable)
    from out_of_range_no_match [OF this, of "parseInt seg"] r show ?thesis
      by blast
  qed
  show "get_user st seg = (st, [Respond 404 (ErrorBody ''User not found'')])"
    using none by (rule get_user_absent)
  show "put_user st seg b now = (st, [Respond 404 (ErrorBody ''User not found'')])"
    using none by (rule put_user_absent)
  show "delete_user st seg = (st, [Respond 404 (ErrorBody ''User not found'')])"
    using none by (rule delete_user_absent)
next
  assume "\<exists>u \<in> set (users st). id_is (parseInt seg) u"
  from findIndex_ex [OF this]
  obtain i where i: "findIndex (id_is (parseInt seg)) (users st) = Some i" ..
  from findIndex_Some [OF i] get_user_found [OF i]
  show "\<exists>i < length (users st).
         id_is (parseInt seg) (users st ! i) \<and>
         (\<forall>j < i. \<not> id_is (parseInt seg) (users st ! j)) \<and>
         get_user st seg = (st, [Respond 200 (UserBody (users st ! i))])"
    by (intro exI [of _ i]) simp
next
  assume d: "1 \<le> n \<and> n \<le> exact_limit \<and> takeWhile (is_digit 10) rest = []"
  then have "1 \<le> n" "n \<le> exact_limit" "takeWhile (is_digit 10) rest = []" by simp_all
  then show p: "parseInt (decimal n @ rest) = Fin (of_nat n)"
    by (rule parseInt_decimal_prefix)
  show "id_is (parseInt (decimal n @ rest)) u' \<longleftrightarrow> user_id u' = n"
    unfolding p by (rule id_is_of_nat)
qed

theorem unreadable_or_unassigned_id_is_not_found_witness:
  "\<not> has_leading_digit (ascii ''abc'') \<and>
   parseInt (ascii ''abc'') = NaN \<and>
   get_user store1 (ascii ''abc'') = (store1, [Respond 404 (ErrorBody ''User not found'')]) \<and>
   parseInt (ascii ''7'') = Fin 7 \<and>
   delete_user (fst (run init [PostUsers john (ascii ''t0'') (Resolved ())])) (ascii ''7'') =
     (fst (run init [PostUsers john (ascii ''t0'') (Resolved ())]),
      [Respond 404 (ErrorBody ''User not found'')]) \<and>
   id_is (parseInt (ascii ''1abc'')) ann \<and>
   get_user store1 (ascii ''1abc'') = (store1, [Respond 200 (UserBody ann)]) \<and>
   (1 :: nat) \<le> 12 \<and> 12 \<le> exact_limit \<and> takeWhile (is_digit 10) (ascii ''abc'') = [] \<and>
   parseInt (decimal 12 @ ascii ''abc'') = Fin (of_nat 12)"
proof -
  define evs where "evs = [PostUsers john (ascii ''t0'') (Resolved ())]"
  define st where "st = fst (run init evs)"
  define nobody where "nobody = \<lparr>b_name = Undefined, b_email = Undefined\<rparr>"
  have 1: "\<not> has_leading_digit (ascii ''abc'')"
    by (simp add: has_leading_digit_def ascii_def is_whitespace_def strip_sign_def is_digit_def
        digit_value_def)
  note t1 = unreadable_or_unassigned_id_is_not_found
              [where seg = "ascii ''abc''" and st = store1 and b = nobody and now = "[]"]
  from t1 1 have 2: "parseInt (ascii ''abc'') = NaN" by blast
  with t1 have 3: "get_user store1 (ascii ''abc'') = (store1, [Respond 404 (ErrorBody ''User not found'')])"
    by blast
  have 4: "parseInt (ascii ''7'') = Fin 7"
    by (simp add: eval_parse)
  have n: "nextId st = 2"
    by (simp add: st_def evs_def run_single init_def post_users_def john_def ascii_def Let_def
        js_incr_def round_nat_def bit_length.simps)
  have "(of_nat (nextId st) :: rat) \<le> 7 \<and> (7 :: rat) < of_nat exact_limit"
    by (simp add: n exact_limit_numeral)
  with 4 have "st = fst (run init evs) \<and>
      (parseInt (ascii ''7'') = PosInf \<or> parseInt (ascii ''7'') = NegInf \<or>
       (\<exists>q. parseInt (ascii ''7'') = Fin q \<and>
            (q < 1 \<or> of_nat exact_limit < q \<or>
             (of_nat (nextId st) \<le> q \<and> q < of_nat exact_limit))))"
    by (simp add: st_def)
  with unreadable_or_unassigned_id_is_not_found
         [where seg = "ascii ''7''" and st = st and evs = evs and b = nobody and now = "[]"]
  have 5: "delete_user st (ascii ''7'') = (st, [Respond 404 (ErrorBody ''User not found'')])"
    by blast
  have 6: "id_is (parseInt (ascii ''1abc'')) ann"
    by (simp add: id_is_def ann_def eval_parse)
  then have "\<exists>u \<in> set (users store1). id_is (parseInt (ascii ''1abc'')) u"
    by (simp add: store1_def)
  with unreadable_or_unassigned_id_is_not_found [where seg = "ascii ''1abc''" and st = store1]
  obtain i where "i < length (users store1)"
    and g: "get_user store1 (ascii ''1abc'') = (store1, [Respond 200 (UserBody (users store1 ! i))])"
    by blast
  then have "i = 0" by (simp add: store1_def)
  with g have 7: "get_user store1 (ascii ''1abc'') = (store1, [Respond 200 (UserBody ann)])"
    by (simp add: store1_def)
  have 8: "(1 :: nat) \<le> 12 \<and> 12 \<le> exact_limit \<and> takeWhile (is_digit 10) (ascii ''abc'') = []"
    by (simp add: exact_limit_numeral ascii_def is_digit_def digit_value_def)
  with unreadable_or_unassigned_id_is_not_found [where n = 12 and rest = "ascii ''abc''"]
  have 9: "parseInt (decimal 12 @ ascii ''abc'') = Fin (of_nat 12)"
    by blast
  from 1 2 3 4 5 6 7 8 9 show ?thesis unfolding st_def evs_def by blast
qed

text \<open>
  C6 as stated fails: after one create, the segment \<open>1abc\<close>, which is no numeric
  string, is read as 1; \<open>GET\<close> answers 200 with the record of id 1, and \<open>DELETE\<close>
  removes it. The segment \<open>0x1\<close> is read as the hexadecimal 1, and \<open>GET\<close> answers 200
  with the same record.
\<close>

theorem non_numeric_segment_matches_counterexample:
  "snd (run init [PostUsers john (ascii ''t0'') (Resolved ()), GetUser (ascii ''1abc'')]) =
     [Respond 201 (UserBody (new_user 1 john (ascii ''t0''))),
      Respond 200 (UserBody (new_user 1 john (ascii ''t0'')))] \<and>
   delete_user (fst (run init [PostUsers john (ascii ''t0'') (Resolved ())])) (ascii ''1abc'') =
     (\<lparr>users = [], nextId = 2, nats = None\<rparr>, [Respond 204 NoBody]) \<and>
   snd (run init [PostUsers john (ascii ''t0'') (Resolved ()), GetUser (ascii ''0x1'')]) =
     [Respond 201 (UserBody (new_user 1 john (ascii ''t0''))),
      Respond 200 (UserBody (new_user 1 john (ascii ''t0'')))]"
  by (simp add: run.simps(2) init_def post_users_def get_user_def delete_user_def
      publish_created_def john_def new_user_def id_is_def splice1_def Let_def js_incr_def eval_parse)

subsection \<open>C7: delete\<close>

text \<open>
  C7 (as the code has it). A delete addressed to the id of a stored record answers 204
  with an empty body and removes the first record with that id (no record before it has
  the id), leaving the others in their order. In a state reached from the empty store, for an id below \<open>2^53\<close>, that
  record is the only one with the id: the store afterwards is the store without the
  records of that id, one record shorter, and after any further events a \<open>GET\<close> of the
  id answers 404 with \<open>{error: "User not found"}\<close>, because the id is not assigned again.
\<close>

theorem delete_removes_record_for_good:
  "((\<exists>u \<in> set (users st). id_is (parseInt seg) u) \<longrightarrow>
      (\<exists>i < length (users st). id_is (parseInt seg) (users st ! i) \<and>
         (\<forall>j < i. \<not> id_is (parseInt seg) (users st ! j)) \<and>
         delete_user st seg =
           (st\<lparr>users := take i (users st) @ drop (Suc i) (users st)\<rparr>, [Respond 204 NoBody]))) \<and>
   (st = fst (run init evs) \<and> parseInt seg = Fin (of_nat k) \<and> k < exact_limit \<and>
    k \<in> set (ids st) \<longrightarrow>
      delete_user st seg =
        (st\<lparr>users := filter (\<lambda>u. user_id u \<noteq> k) (users st)\<rparr>, [Respond 204 NoBody]) \<and>
      length (filter (\<lambda>u. user_id u \<noteq> k) (users st)) + 1 = length (users st) \<and>
      (parseInt seg' = Fin (of_nat k) \<longrightarrow>
         get_user (fst (run (fst (delete_user st seg)) evs')) seg' =
           (fst (run (fst (delete_user st seg)) evs'),
            [Respond 404 (ErrorBody ''User not found'')])))"
proof (intro conjI impI)
  assume "\<exists>u \<in> set (users st). id_is (parseInt seg) u"
  then show "\<exists>i < length (users st). id_is (parseInt seg) (users st ! i) \<and>
         (\<forall>j < i. \<not> id_is (parseInt seg) (users st ! j)) \<and>
         delete_user st seg =
           (st\<lparr>users := take i (users st) @ drop (Suc i) (users st)\<rparr>, [Respond 204 NoBody])"
    by (rule delete_user_present)
next
  assume a: "st = fst (run init evs) \<and> parseInt seg = Fin (of_nat k) \<and> k < exact_limit \<and>
             k \<in> set (ids st)"
  then have p: "parseInt seg = Fin (of_nat k)"
    and k: "k < exact_limit" and mem: "k \<in> set (ids st)"
    by blast+
  from a have "st = fst (run init evs)" by blast
  then have inv: "store_inv st" by (simp only: store_inv_reachable)
  from mem have "\<exists>u \<in> set (users st). user_id u = k"
    by (auto simp: ids_def)
  from findIndex_ex [OF this]
  obtain i where i: "findIndex (\<lambda>u. user_id u = k) (users st) = Some i" ..
  from findIndex_Some [OF i] have len: "i < length (users st)" by simp
  from inv have d: "distinct (filter (\<lambda>n. n < exact_limit) (map user_id (users st)))"
    by (simp add: store_inv_def ids_def)
  note sp = first_match_unique [OF i d k]
  have del: "delete_user st seg =
        (st\<lparr>users := filter (\<lambda>u. user_id u \<noteq> k) (users st)\<rparr>, [Respond 204 NoBody])"
    using delete_user_found [of seg st i] i by (simp add: p id_is_of_nat_fun sp)
  then show "delete_user st seg =
        (st\<lparr>users := filter (\<lambda>u. user_id u \<noteq> k) (users st)\<rparr>, [Respond 204 NoBody])" .
  from len have "length (splice1 i (users st)) + 1 = length (users st)"
    by (simp add: splice1_def)
  then show "length (filter (\<lambda>u. user_id u \<noteq> k) (users st)) + 1 = length (users st)"
    by (simp only: sp)
  assume p': "parseInt seg' = Fin (of_nat k)"
  define st' where "st' = fst (delete_user st seg)"
  have st': "st' = st\<lparr>users := filter (\<lambda>u. user_id u \<noteq> k) (users st)\<rparr>"
    by (simp add: st'_def del)
  have "st' = fst (handle st (DeleteUser seg))" by (simp add: st'_def)
  with inv have inv': "store_inv st'" by (simp only: store_inv_handle)
  have gone: "k \<notin> set (ids st')"
    by (auto simp: st' ids_def)
  from inv mem k have "k < nextId st"
    by (auto simp: store_inv_def list_all_iff)
  then have lt: "k < nextId st'" by (simp add: st')
  from absent_run [OF inv' lt gone]
  have "k \<notin> set (ids (fst (run st' evs')))" .
  from get_user_no_id [OF p' this]
  show "get_user (fst (run (fst (delete_user st seg)) evs')) seg' =
           (fst (run (fst (delete_user st seg)) evs'),
            [Respond 404 (ErrorBody ''User not found'')])"
    by (simp only: st'_def)
qed

theorem delete_removes_record_for_good_witness:
  "parseInt (ascii ''1'') = Fin (of_nat 1) \<and> (1 :: nat) < exact_limit \<and>
   1 \<in> set (ids (fst (run init [PostUsers john (ascii ''t0'') (Resolved ())]))) \<and>
   snd (delete_user (fst (run init [PostUsers john (ascii ''t0'') (Resolved ())])) (ascii ''1'')) =
     [Respond 204 NoBody] \<and>
   users (fst (delete_user (fst (run init [PostUsers john (ascii ''t0'') (Resolved ())])) (ascii ''1''))) = [] \<and>
   snd (get_user
         (fst (run (fst (delete_user (fst (run init [PostUsers john (ascii ''t0'') (Resolved ())]))
                      (ascii ''1'')))
                 [PostUsers john (ascii ''t1'') (Resolved ())]))
         (ascii ''1'')) =
     [Respond 404 (ErrorBody ''User not found'')]"
proof -
  define st where "st = fst (run init [PostUsers john (ascii ''t0'') (Resolved ())])"
  define evs' where "evs' = [PostUsers john (ascii ''t1'') (Resolved ())]"
  have st: "st = \<lparr>users = [new_user 1 john (ascii ''t0'')], nextId = 2, nats = None\<rparr>"
    by (simp add: st_def run_single init_def post_users_def publish_created_def john_def ascii_def
        Let_def js_incr_def round_nat_def bit_length.simps)
  have p: "parseInt (ascii ''1'') = Fin (of_nat 1)"
    by (simp add: eval_parse)
  have k: "(1 :: nat) < exact_limit"
    by (simp add: exact_limit_numeral)
  have m: "1 \<in> set (ids st)"
    by (simp add: st ids_def new_user_def)
  from p k m have h: "st = fst (run init [PostUsers john (ascii ''t0'') (Resolved ())]) \<and>
      parseInt (ascii ''1'') = Fin (of_nat 1) \<and> 1 < exact_limit \<and> 1 \<in> set (ids st)"
    by (simp add: st_def)
  note t = delete_removes_record_for_good
             [of st "ascii ''1''" "[PostUsers john (ascii ''t0'') (Resolved ())]" 1 "ascii ''1''" evs']
  from t h have d: "delete_user st (ascii ''1'') =
        (st\<lparr>users := filter (\<lambda>u. user_id u \<noteq> 1) (users st)\<rparr>, [Respond 204 NoBody])"
    by blast
  from t h p have g: "get_user (fst (run (fst (delete_user st (ascii ''1''))) evs')) (ascii ''1'') =
           (fst (run (fst (delete_user st (ascii ''1''))) evs'),
            [Respond 404 (ErrorBody ''User not found'')])"
    by blast
  from d have 1: "snd (delete_user st (ascii ''1'')) = [Respond 204 NoBody]"
    by simp
  from d have 2: "users (fst (delete_user st (ascii ''1''))) = []"
    by (simp add: st new_user_def)
  from g have 3: "snd (get_user (fst (run (fst (delete_user st (ascii ''1''))) evs')) (ascii ''1'')) =
     [Respond 404 (ErrorBody ''User not found'')]"
    by simp
  from p k m 1 2 3 show ?thesis
    unfolding st_def evs'_def by (intro conjI)
qed

text \<open>
  C7 as stated fails: after \<open>2^53 - 1\<close> rounds of create and delete and one more
  create, the record of id \<open>2^53\<close> is deleted, with 204; the next create is given that
  id again, and a \<open>GET\<close> of it answers 200.
\<close>

theorem deleted_id_assigned_again_counterexample:
  "snd (delete_user
         (fst (run init (churn (PostUsers john (ascii ''t0'') (Resolved ())) 9007199254740991 @
                          [PostUsers john (ascii ''t0'') (Resolved ())])))
         (ascii ''9007199254740992'')) =
     [Respond 204 NoBody] \<and>
   snd (get_user
         (fst (run init (churn (PostUsers john (ascii ''t0'') (Resolved ())) 9007199254740991 @
                          [PostUsers john (ascii ''t0'') (Resolved ()),
                           DeleteUser (ascii ''9007199254740992''),
                           PostUsers john (ascii ''t0'') (Resolved ())])))
         (ascii ''9007199254740992'')) =
     [Respond 200 (UserBody (new_user 9007199254740992 john (ascii ''t0'')))]"
proof -
  have s: "Suc 9007199254740991 = (9007199254740992 :: nat)" by simp
  note l = limit_reached(2,3) [OF john_valid limit_numerals(2,1), of "ascii ''t0''" "Resolved ()"]
  from l show ?thesis
    unfolding s by (rule conjI)
qed

subsection \<open>C8: a failed connect\<close>

text \<open>
  C8. A rejected connect is caught inside \<open>initNATS\<close>: the function logs, leaves the
  state as it was and completes normally. So when no adapter was connected before, none
  is connected after, nor after any sequence of requests that follows: there
  \<open>GET /ready\<close> answers 200 with \<open>natsConnected: false\<close>, and a valid create does nothing
  but answer 201 with the created record.
\<close>

theorem connect_failure_is_survived:
  "fst (initNATS st (Rejected e)) = st \<and>
   snd (snd (initNATS st (Rejected e))) = Resolved () \<and>
   (nats st = None \<and> list_all is_http evs \<longrightarrow>
      nats (fst (run (fst (initNATS st (Rejected e))) evs)) = None \<and>
      snd (get_ready (fst (run (fst (initNATS st (Rejected e))) evs))) =
        [Respond 200 (ReadyBody ''ready'' False)] \<and>
      (truthy (b_name b) \<and> truthy (b_email b) \<longrightarrow>
         snd (post_users (fst (run (fst (initNATS st (Rejected e))) evs)) b now pub) =
           [Respond 201
              (UserBody (new_user (nextId (fst (run (fst (initNATS st (Rejected e))) evs))) b now))]))"
proof -
  obtain msg where e: "e = Error msg" by (cases e)
  have 1: "fst (initNATS st (Rejected e)) = st" "snd (snd (initNATS st (Rejected e))) = Resolved ()"
    by (simp_all add: e initNATS_rejected)
  {
    assume a: "nats st = None \<and> list_all is_http evs"
    define st' where "st' = fst (run st evs)"
    from a have n: "nats st' = None"
      by (simp add: st'_def run_http_nats)
    have r: "snd (get_ready st') = [Respond 200 (ReadyBody ''ready'' False)]"
      by (simp add: get_ready_def n)
    have p: "truthy (b_name b) \<and> truthy (b_email b) \<longrightarrow>
         snd (post_users st' b now pub) = [Respond 201 (UserBody (new_user (nextId st') b now))]"
      by (simp add: post_users_valid publish_created_cases n)
    from n r p have "nats st' = None \<and>
      snd (get_ready st') = [Respond 200 (ReadyBody ''ready'' False)] \<and>
      (truthy (b_name b) \<and> truthy (b_email b) \<longrightarrow>
         snd (post_users st' b now pub) = [Respond 201 (UserBody (new_user (nextId st') b now))])"
      by (intro conjI)
  }
  then show ?thesis
    by (simp only: 1) simp
qed

theorem connect_failure_is_survived_witness:
  "nats init = None \<and> list_all is_http [PostUsers john (ascii ''t0'') (Resolved ()), GetUsers] \<and>
   fst (initNATS init (Rejected (Error (ascii ''ECONNREFUSED'')))) = init \<and>
   snd (get_ready (fst (run init [PostUsers john (ascii ''t0'') (Resolved ()), GetUsers]))) =
     [Respond 200 (ReadyBody ''ready'' False)] \<and>
   snd (post_users (fst (run init [PostUsers john (ascii ''t0'') (Resolved ()), GetUsers])) john
          (ascii ''t1'') (Resolved ())) =
     [Respond 201 (UserBody (new_user 2 john (ascii ''t1'')))]"
proof -
  define evs where "evs = [PostUsers john (ascii ''t0'') (Resolved ()), GetUsers]"
  define e where "e = Error (ascii ''ECONNREFUSED'')"
  define st where "st = fst (run init evs)"
  have h: "nats init = None \<and> list_all is_http evs"
    by (simp add: init_def evs_def)
  have v: "truthy (b_name john) \<and> truthy (b_email john)"
    by (simp add: john_def ascii_def)
  have n: "nextId st = 2"
    by (simp add: st_def evs_def run.simps(2) init_def post_users_def john_def ascii_def
        get_users_def Let_def
        js_incr_def round_nat_def bit_length.simps)
  note t = connect_failure_is_survived [of init e evs john "ascii ''t1''" "Resolved ()"]
  from t have i: "fst (initNATS init (Rejected e)) = init" by (rule conjunct1)
  from t h have
    "snd (get_ready (fst (run (fst (initNATS init (Rejected e))) evs))) =
        [Respond 200 (ReadyBody ''ready'' False)] \<and>
      (truthy (b_name john) \<and> truthy (b_email john) \<longrightarrow>
         snd (post_users (fst (run (fst (initNATS init (Rejected e))) evs)) john (ascii ''t1'') (Resolved ())) =
           [Respond 201
              (UserBody (new_user (nextId (fst (run (fst (initNATS init (Rejected e))) evs))) john (ascii ''t1'')))])"
    by blast
  with v have "snd (get_ready st) = [Respond 200 (ReadyBody ''ready'' False)] \<and>
      snd (post_users st john (ascii ''t1'') (Resolved ())) =
        [Respond 201 (UserBody (new_user 2 john (ascii ''t1'')))]"
    unfolding i st_def [symmetric] n by blast
  with h i show ?thesis
    unfolding st_def evs_def e_def by blast
qed

subsection \<open>C9: a failed publish\<close>

text \<open>
  C9. For a valid create request the handler writes exactly one response, 201 with the
  created record, and leaves the same state, whatever the adapter's state and however
  the publish settles. With no adapter connected nothing is published and nothing is
  logged; with an adapter connected a rejected publish is caught and written to the
  error log, and the response is still the 201.
\<close>

theorem publish_outcome_never_changes_response:
  "truthy (b_name b) \<and> truthy (b_email b) \<longrightarrow>
     responses (snd (post_users st b now pub)) =
       [Respond 201 (UserBody (new_user (nextId st) b now))] \<and>
     fst (post_users st b now pub) =
       st\<lparr>users := users st @ [new_user (nextId st) b now], nextId := js_incr (nextId st)\<rparr> \<and>
     (nats st = None \<longrightarrow>
        snd (post_users st b now pub) = [Respond 201 (UserBody (new_user (nextId st) b now))]) \<and>
     (nats st \<noteq> None \<longrightarrow>
        snd (post_users st b now (Rejected e)) =
          [NatsPublish ''user.created'' (new_user (nextId st) b now), Awaited (Some e),
           ConsoleError ''Failed to publish event:'' [LErr e],
           Respond 201 (UserBody (new_user (nextId st) b now))] \<and>
        snd (post_users st b now (Resolved ())) =
          [NatsPublish ''user.created'' (new_user (nextId st) b now), Awaited None,
           ConsoleLog ''Published user.created event:'' [LNum (nextId st)],
           Respond 201 (UserBody (new_user (nextId st) b now))])"
proof
  assume v: "truthy (b_name b) \<and> truthy (b_email b)"
  then have v1: "truthy (b_name b)" and v2: "truthy (b_email b)" by simp_all
  note eq = post_users_valid [OF v1 v2]
  have "responses (snd (post_users st b now pub)) =
       [Respond 201 (UserBody (new_user (nextId st) b now))]"
    using responses_publish_created [of st "new_user (nextId st) b now" pub]
    by (simp add: eq responses_def)
  moreover have "fst (post_users st b now pub) =
       st\<lparr>users := users st @ [new_user (nextId st) b now], nextId := js_incr (nextId st)\<rparr>"
    by (simp add: eq)
  moreover have "nats st = None \<longrightarrow>
        snd (post_users st b now pub) = [Respond 201 (UserBody (new_user (nextId st) b now))]"
    by (simp add: eq publish_created_cases)
  moreover have "nats st \<noteq> None \<longrightarrow>
        snd (post_users st b now (Rejected e)) =
          [NatsPublish ''user.created'' (new_user (nextId st) b now), Awaited (Some e),
           ConsoleError ''Failed to publish event:'' [LErr e],
           Respond 201 (UserBody (new_user (nextId st) b now))] \<and>
        snd (post_users st b now (Resolved ())) =
          [NatsPublish ''user.created'' (new_user (nextId st) b now), Awaited None,
           ConsoleLog ''Published user.created event:'' [LNum (nextId st)],
           Respond 201 (UserBody (new_user (nextId st) b now))]"
    by (simp add: eq publish_created_cases new_user_def)
  ultimately show "responses (snd (post_users st b now pub)) =
       [Respond 201 (UserBody (new_user (nextId st) b now))] \<and>
     fst (post_users st b now pub) =
       st\<lparr>users := users st @ [new_user (nextId st) b now], nextId := js_incr (nextId st)\<rparr> \<and>
     (nats st = None \<longrightarrow>
        snd (post_users st b now pub) = [Respond 201 (UserBody (new_user (nextId st) b now))]) \<and>
     (nats st \<noteq> None \<longrightarrow>
        snd (post_users st b now (Rejected e)) =
          [NatsPublish ''user.created'' (new_user (nextId st) b now), Awaited (Some e),
           ConsoleError ''Failed to publish event:'' [LErr e],
           Respond 201 (UserBody (new_user (nextId st) b now))] \<and>
        snd (post_users st b now (Resolved ())) =
          [NatsPublish ''user.created'' (new_user (nextId st) b now), Awaited None,
           ConsoleLog ''Published user.created event:'' [LNum (nextId st)],
           Respond 201 (UserBody (new_user (nextId st) b now))])"
    by (intro conjI)
qed

theorem publish_outcome_never_changes_response_witness:
  "truthy (b_name john) \<and> truthy (b_email john) \<and> nats connected1 \<noteq> None \<and> nats store1 = None \<and>
   responses (snd (post_users connected1 john (ascii ''t1'') (Rejected (Error (ascii ''timeout''))))) =
     [Respond 201 (UserBody (new_user 2 john (ascii ''t1'')))] \<and>
   responses (snd (post_users connected1 john (ascii ''t1'') (Resolved ()))) =
     [Respond 201 (UserBody (new_user 2 john (ascii ''t1'')))] \<and>
   snd (post_users store1 john (ascii ''t1'') (Resolved ())) =
     [Respond 201 (UserBody (new_user 2 john (ascii ''t1'')))]"
proof -
  have h: "truthy (b_name john) \<and> truthy (b_email john)"
    by (simp add: john_def ascii_def)
  have c: "nats connected1 \<noteq> None" "nats store1 = None" "nextId connected1 = 2" "nextId store1 = 2"
    by (simp_all add: connected1_def store1_def)
  from publish_outcome_never_changes_response
         [of john connected1 "ascii ''t1''" "Rejected (Error (ascii ''timeout''))"] h c(3)
  have 1: "responses (snd (post_users connected1 john (ascii ''t1'') (Rejected (Error (ascii ''timeout''))))) =
     [Respond 201 (UserBody (new_user 2 john (ascii ''t1'')))]"
    by simp
  from publish_outcome_never_changes_response [of john connected1 "ascii ''t1''" "Resolved ()"] h c(3)
  have 2: "responses (snd (post_users connected1 john (ascii ''t1'') (Resolved ()))) =
     [Respond 201 (UserBody (new_user 2 john (ascii ''t1'')))]"
    by simp
  from publish_outcome_never_changes_response [of john store1 "ascii ''t1''" "Resolved ()"] h c(2,4)
  have 3: "snd (post_users store1 john (ascii ''t1'') (Resolved ())) =
     [Respond 201 (UserBody (new_user 2 john (ascii ''t1'')))]"
    by simp
  from h c(1,2) 1 2 3 show ?thesis by (intro conjI) simp_all
qed

subsection \<open>C10: the empty string in an update\<close>



end
